theory Spec2Isabelle
  imports Main "HOL-Library.Finite_Map" "HOL-Library.Multiset"
begin

section \<open>Memory, nodes and the node allocator\<close>

text \<open>
  A \<^verbatim>\<open>node *\<close> is an address or \<^verbatim>\<open>nullptr\<close> (\<open>None\<close>). A node
  (\<^verbatim>\<open>struct node\<close>, mpsc_queue.hpp 138-165) holds its data and the atomic next
  pointer. The field \<^verbatim>\<open>next\<close> is named \<open>next_ptr\<close> here.
\<close>

type_synonym addr = nat
type_synonym pointer = "addr option"

record 'a node =
  data :: 'a
  next_ptr :: pointer

text \<open>
  A cell of storage obtained from the allocator is raw (allocated, no object) or holds a
  constructed node. \<^verbatim>\<open>construct\<close> and \<^verbatim>\<open>destroy\<close> switch between the two,
  \<^verbatim>\<open>allocate\<close> and \<^verbatim>\<open>deallocate\<close> create and remove the cell.
\<close>

datatype 'a cell = Raw | Obj "'a node"

text \<open>The calls that reach the allocator, in the order they are made.\<close>

datatype event =
  Allocate addr | Alloc_failed | Construct addr | Destroy addr | Deallocate addr

text \<open>
  The queue object: the two atomic cursors \<^verbatim>\<open>m_head\<close> and \<^verbatim>\<open>m_tail\<close>, and
  \<^verbatim>\<open>m_node_alloc\<close> together with the storage it manages. The allocator is a template
  parameter of the queue; the one modelled here is an instrumented allocator over a bounded
  arena: \<open>mem\<close> is the storage handed out and not yet given back, \<open>free_list\<close> the
  addresses given back (reused last-in first-out), \<open>fresh\<close> the first address never handed
  out, \<open>limit\<close> the size of the arena (\<^verbatim>\<open>allocate\<close> throws when it is exhausted), and
  \<open>trace\<close> the log of calls.
\<close>

record 'a mpsc_queue =
  m_head :: pointer
  m_tail :: pointer
  mem :: "(addr, 'a cell) fmap"
  free_list :: "addr list"
  fresh :: addr
  limit :: nat
  trace :: "event list"

text \<open>
  What a call does: it returns a value and leaves a state, or it throws
  \<^verbatim>\<open>std::bad_alloc\<close> and leaves a state, or it has undefined behaviour (a null or
  dangling pointer is dereferenced, destroyed or deallocated).
\<close>

datatype ('r, 's) outcome = Return 'r 's | Bad_alloc 's | Undefined

fun and_then :: "('r, 's) outcome \<Rightarrow> ('r \<Rightarrow> 's \<Rightarrow> ('q, 's) outcome) \<Rightarrow> ('q, 's) outcome" where
  "and_then (Return r s) f = f r s"
| "and_then (Bad_alloc s) f = Bad_alloc s"
| "and_then Undefined f = Undefined"

definition log :: "event \<Rightarrow> 'a mpsc_queue \<Rightarrow> 'a mpsc_queue" where
  "log e s = s\<lparr>trace := trace s @ [e]\<rparr>"

text \<open>\<^verbatim>\<open>node_allocator_traits::allocate(m_node_alloc, 1)\<close>.\<close>

definition allocate :: "'a mpsc_queue \<Rightarrow> (pointer, 'a mpsc_queue) outcome" where
  "allocate s =
     (case free_list s of
        a # rest \<Rightarrow>
          Return (Some a) (log (Allocate a) (s\<lparr>free_list := rest, mem := fmupd a Raw (mem s)\<rparr>))
      | [] \<Rightarrow>
          if fresh s < limit s
          then Return (Some (fresh s))
                 (log (Allocate (fresh s))
                    (s\<lparr>fresh := Suc (fresh s), mem := fmupd (fresh s) Raw (mem s)\<rparr>))
          else Bad_alloc (log Alloc_failed s))"

text \<open>\<^verbatim>\<open>node_allocator_traits::construct(m_node_alloc, p, args...)\<close>: placement of a node
  into raw storage.\<close>

definition construct :: "'a mpsc_queue \<Rightarrow> pointer \<Rightarrow> 'a node \<Rightarrow> (unit, 'a mpsc_queue) outcome" where
  "construct s p nd =
     (case p of
        None \<Rightarrow> Undefined
      | Some a \<Rightarrow>
          (case fmlookup (mem s) a of
             Some Raw \<Rightarrow> Return () (log (Construct a) (s\<lparr>mem := fmupd a (Obj nd) (mem s)\<rparr>))
           | _ \<Rightarrow> Undefined))"

text \<open>\<^verbatim>\<open>node_allocator_traits::destroy(m_node_alloc, p)\<close>: the node's destructor runs, the
  storage stays allocated.\<close>

definition destroy :: "'a mpsc_queue \<Rightarrow> pointer \<Rightarrow> (unit, 'a mpsc_queue) outcome" where
  "destroy s p =
     (case p of
        None \<Rightarrow> Undefined
      | Some a \<Rightarrow>
          (case fmlookup (mem s) a of
             Some (Obj nd) \<Rightarrow> Return () (log (Destroy a) (s\<lparr>mem := fmupd a Raw (mem s)\<rparr>))
           | _ \<Rightarrow> Undefined))"

text \<open>\<^verbatim>\<open>node_allocator_traits::deallocate(m_node_alloc, p, 1)\<close>: the storage goes back to the
  allocator, whether or not the object in it was destroyed.\<close>

definition deallocate :: "'a mpsc_queue \<Rightarrow> pointer \<Rightarrow> (unit, 'a mpsc_queue) outcome" where
  "deallocate s p =
     (case p of
        None \<Rightarrow> Undefined
      | Some a \<Rightarrow>
          (case fmlookup (mem s) a of
             Some c \<Rightarrow>
               Return () (log (Deallocate a)
                 (s\<lparr>mem := fmdrop a (mem s), free_list := a # free_list s\<rparr>))
           | None \<Rightarrow> Undefined))"

text \<open>Reading through a node pointer: \<open>None\<close> when the pointer is null or does not point to
  a live node.\<close>

definition load_node :: "'a mpsc_queue \<Rightarrow> pointer \<Rightarrow> 'a node option" where
  "load_node s p =
     (case p of
        None \<Rightarrow> None
      | Some a \<Rightarrow> (case fmlookup (mem s) a of Some (Obj nd) \<Rightarrow> Some nd | _ \<Rightarrow> None))"

text \<open>\<^verbatim>\<open>p->next.store(v)\<close>.\<close>

definition store_next :: "'a mpsc_queue \<Rightarrow> pointer \<Rightarrow> pointer \<Rightarrow> (unit, 'a mpsc_queue) outcome" where
  "store_next s p v =
     (case p of
        None \<Rightarrow> Undefined
      | Some a \<Rightarrow>
          (case fmlookup (mem s) a of
             Some (Obj nd) \<Rightarrow> Return () (s\<lparr>mem := fmupd a (Obj (nd\<lparr>next_ptr := v\<rparr>)) (mem s)\<rparr>)
           | _ \<Rightarrow> Undefined))"

text \<open>\<^verbatim>\<open>m_head.exchange(new_node)\<close>: the previous head is returned.\<close>

definition exchange_head :: "'a mpsc_queue \<Rightarrow> pointer \<Rightarrow> (pointer, 'a mpsc_queue) outcome" where
  "exchange_head s new_node = Return (m_head s) (s\<lparr>m_head := new_node\<rparr>)"

section \<open>The queue's operations\<close>

text \<open>
  The state in which the constructor's body starts: the atomics are value-initialised (null),
  the allocator is default-constructed over an arena of \<open>cap\<close> cells.
\<close>

definition blank :: "nat \<Rightarrow> 'a mpsc_queue" where
  "blank cap =
     \<lparr>m_head = None, m_tail = None, mem = fmempty, free_list = [], fresh = 0, limit = cap,
      trace = []\<rparr>"

text \<open>The constructor (mpsc_queue.hpp 42-49). \<open>dflt\<close> is \<^verbatim>\<open>T()\<close>, the default-constructed
  data of the dummy node.\<close>

definition mpsc_queue :: "nat \<Rightarrow> 'a \<Rightarrow> (unit, 'a mpsc_queue) outcome" where
  "mpsc_queue cap dflt =
     and_then (allocate (blank cap)) (\<lambda>dummy s1.
     and_then (construct s1 dummy \<lparr>data = dflt, next_ptr = None\<rparr>) (\<lambda>_ s2.
       Return () (s2\<lparr>m_head := dummy, m_tail := dummy\<rparr>)))"

text \<open>\<^verbatim>\<open>push_impl\<close> (mpsc_queue.hpp 187-197).\<close>

definition push_impl :: "'a mpsc_queue \<Rightarrow> 'a \<Rightarrow> (unit, 'a mpsc_queue) outcome" where
  "push_impl s v =
     and_then (allocate s) (\<lambda>new_node s1.
     and_then (construct s1 new_node \<lparr>data = v, next_ptr = None\<rparr>) (\<lambda>_ s2.
     and_then (exchange_head s2 new_node) (\<lambda>prev_head s3.
       store_next s3 prev_head new_node)))"

text \<open>\<^verbatim>\<open>push (const T &value)\<close> (mpsc_queue.hpp 70-73): a copy of the argument is handed to
  \<^verbatim>\<open>push_impl\<close>. The overload \<^verbatim>\<open>push (T &&value)\<close> is looked at below.\<close>

definition push :: "'a mpsc_queue \<Rightarrow> 'a \<Rightarrow> (unit, 'a mpsc_queue) outcome" where
  "push s v = push_impl s v"

text \<open>
  \<^verbatim>\<open>pull\<close> (mpsc_queue.hpp 92-106). The data is moved out of the node after the old tail;
  what the move leaves behind in that node is never read again and is kept as it was.
\<close>

definition pull :: "'a mpsc_queue \<Rightarrow> ('a option, 'a mpsc_queue) outcome" where
  "pull s =
     (let tail_ptr = m_tail s in
      case load_node s tail_ptr of
        None \<Rightarrow> Undefined
      | Some tn \<Rightarrow>
          (case next_ptr tn of
             None \<Rightarrow> Return None s
           | Some nx \<Rightarrow>
               (case load_node s (Some nx) of
                  None \<Rightarrow> Undefined
                | Some nn \<Rightarrow>
                    (let result = data nn; s1 = s\<lparr>m_tail := Some nx\<rparr> in
                     and_then (destroy s1 tail_ptr) (\<lambda>_ s2.
                     and_then (deallocate s2 tail_ptr) (\<lambda>_ s3.
                       Return (Some result) s3))))))"

text \<open>
  One pass through the body of the loop of \<^verbatim>\<open>clear\<close> (mpsc_queue.hpp 120-128): the result
  is \<open>None\<close> at the \<^verbatim>\<open>break\<close> and the new \<^verbatim>\<open>tail_ptr\<close> otherwise.
\<close>

definition clear_body :: "'a mpsc_queue \<Rightarrow> pointer \<Rightarrow> (pointer option, 'a mpsc_queue) outcome" where
  "clear_body s tail_ptr =
     (case load_node s tail_ptr of
        None \<Rightarrow> Undefined
      | Some tn \<Rightarrow>
          (case next_ptr tn of
             None \<Rightarrow> Return None s
           | Some nx \<Rightarrow>
               (let s1 = s\<lparr>m_tail := Some nx\<rparr> in
                and_then (destroy s1 tail_ptr) (\<lambda>_ s2.
                and_then (deallocate s2 tail_ptr) (\<lambda>_ s3.
                  Return (Some (Some nx)) s3)))))"

lemma clear_body_shrinks:
  assumes "clear_body s p = Return (Some q) s'"
  shows "fcard (fmdom (mem s')) < fcard (fmdom (mem s))"
proof -
  from assms obtain a nd where a: "p = Some a" and l: "fmlookup (mem s) a = Some (Obj nd)"
    and m: "mem s' = fmdrop a (fmupd a Raw (mem s))"
    by (auto simp: clear_body_def load_node_def destroy_def deallocate_def log_def Let_def
        split: option.splits cell.splits)
  from l have "a |\<in>| fmdom (mem s)" by (simp add: fmlookup_dom_iff)
  then have "fcard (fmdom (mem s) |-| {|a|}) < fcard (fmdom (mem s))"
    by (rule fcard_fminus1_less)
  with m show ?thesis by simp
qed

function clear_loop :: "'a mpsc_queue \<Rightarrow> pointer \<Rightarrow> (unit, 'a mpsc_queue) outcome" where
  "clear_loop s tail_ptr =
     (case clear_body s tail_ptr of
        Return None s' \<Rightarrow> Return () s'
      | Return (Some nx) s' \<Rightarrow> clear_loop s' nx
      | Bad_alloc s' \<Rightarrow> Bad_alloc s'
      | Undefined \<Rightarrow> Undefined)"
  by pat_completeness auto
termination
  by (relation "measure (\<lambda>(s, p). fcard (fmdom (mem s)))") (auto dest: clear_body_shrinks)

declare clear_loop.simps [simp del]

text \<open>\<^verbatim>\<open>clear\<close> (mpsc_queue.hpp 115-130).\<close>

definition clear :: "'a mpsc_queue \<Rightarrow> (unit, 'a mpsc_queue) outcome" where
  "clear s = clear_loop s (m_tail s)"

text \<open>The destructor (mpsc_queue.hpp 56-61).\<close>

definition destructor :: "'a mpsc_queue \<Rightarrow> (unit, 'a mpsc_queue) outcome" where
  "destructor s =
     and_then (clear s) (\<lambda>_ s1.
     and_then (destroy s1 (m_head s1)) (\<lambda>_ s2.
       deallocate s2 (m_tail s2)))"

subsection \<open>The two overloads of push\<close>

text \<open>
  Both overloads call \<^verbatim>\<open>push_impl (T &&value)\<close>. Whether the call is well-formed depends on
  the value category of the argument: an rvalue reference to \<^verbatim>\<open>T\<close> binds to an xvalue or
  a prvalue of type \<^verbatim>\<open>T\<close>, not to an lvalue.
\<close>

datatype value_category = Lvalue | Xvalue | Prvalue

fun binds_rvalue_reference :: "value_category \<Rightarrow> bool" where
  "binds_rvalue_reference Lvalue = False"
| "binds_rvalue_reference Xvalue = True"
| "binds_rvalue_reference Prvalue = True"

text \<open>
  \<^verbatim>\<open>push (const T &value)\<close> passes \<^verbatim>\<open>T(value)\<close>, a prvalue (mpsc_queue.hpp 72);
  \<^verbatim>\<open>push (T &&value)\<close> passes \<^verbatim>\<open>value\<close>, the name of a variable and therefore an lvalue,
  whatever the declared type of the variable (mpsc_queue.hpp 84).
\<close>

definition copy_overload_argument :: value_category where
  "copy_overload_argument = Prvalue"

definition rvalue_overload_argument :: value_category where
  "rvalue_overload_argument = Lvalue"

text \<open>The overloads as the compiler sees them: \<open>None\<close> when the call of \<^verbatim>\<open>push_impl\<close> in
  the body is ill-formed.\<close>

definition push_copy :: "'a mpsc_queue \<Rightarrow> 'a \<Rightarrow> (unit, 'a mpsc_queue) outcome option" where
  "push_copy s v =
     (if binds_rvalue_reference copy_overload_argument then Some (push_impl s v) else None)"

definition push_rvalue :: "'a mpsc_queue \<Rightarrow> 'a \<Rightarrow> (unit, 'a mpsc_queue) outcome option" where
  "push_rvalue s v =
     (if binds_rvalue_reference rvalue_overload_argument then Some (push_impl s v) else None)"

section \<open>Callers\<close>

text \<open>A producer pushing the values of a list in order, stopping at the first push that
  throws.\<close>

fun pushes :: "'a mpsc_queue \<Rightarrow> 'a list \<Rightarrow> (unit, 'a mpsc_queue) outcome" where
  "pushes s [] = Return () s"
| "pushes s (v # vs) = and_then (push s v) (\<lambda>_ s'. pushes s' vs)"

text \<open>The consumer calling \<^verbatim>\<open>pull\<close> \<open>n\<close> times; the results are collected in order.\<close>

fun pulls :: "nat \<Rightarrow> 'a mpsc_queue \<Rightarrow> ('a option list, 'a mpsc_queue) outcome" where
  "pulls 0 s = Return [] s"
| "pulls (Suc n) s =
     and_then (pull s) (\<lambda>x s'. and_then (pulls n s') (\<lambda>xs s''. Return (x # xs) s''))"

lemma pull_shrinks:
  assumes "pull s = Return (Some v) s'"
  shows "fcard (fmdom (mem s')) < fcard (fmdom (mem s))"
proof -
  from assms obtain a nd where l: "fmlookup (mem s) a = Some (Obj nd)"
    and m: "mem s' = fmdrop a (fmupd a Raw (mem s))"
    by (auto simp: pull_def load_node_def destroy_def deallocate_def log_def Let_def
        split: option.splits cell.splits)
  from l have "a |\<in>| fmdom (mem s)" by (simp add: fmlookup_dom_iff)
  then have "fcard (fmdom (mem s) |-| {|a|}) < fcard (fmdom (mem s))"
    by (rule fcard_fminus1_less)
  with m show ?thesis by simp
qed

text \<open>
  The consumer's final loop \<^verbatim>\<open>while (auto v = queue.pull())\<close> (timer.cpp 42-45): it pulls
  until the queue reports empty. The source counts the values; they are collected here.
\<close>

function drain :: "'a mpsc_queue \<Rightarrow> ('a list, 'a mpsc_queue) outcome" where
  "drain s =
     (case pull s of
        Return None s' \<Rightarrow> Return [] s'
      | Return (Some v) s' \<Rightarrow> and_then (drain s') (\<lambda>vs s''. Return (v # vs) s'')
      | Bad_alloc s' \<Rightarrow> Bad_alloc s'
      | Undefined \<Rightarrow> Undefined)"
  by pat_completeness auto
termination
  by (relation "measure (\<lambda>s. fcard (fmdom (mem s)))") (auto dest: pull_shrinks)

declare drain.simps [simp del]

section \<open>Producers and the consumer running concurrently\<close>

text \<open>
  Threads interleave between their accesses to shared memory. A producer is inside
  \<^verbatim>\<open>push_impl\<close> (mpsc_queue.hpp 187-197) or between two pushes; its program counter records
  the local variables \<^verbatim>\<open>new_node\<close>, \<^verbatim>\<open>prev_head\<close> and \<^verbatim>\<open>value\<close>. \<open>todo\<close> are the values the
  producer has yet to push. A producer whose allocation threw stops.
\<close>

datatype 'a producer_pc =
    P_idle
  | P_allocated pointer 'a
  | P_constructed pointer 'a
  | P_exchanged pointer pointer 'a
  | P_failed

record 'a producer =
  todo :: "'a list"
  ppc :: "'a producer_pc"

text \<open>
  The consumer is inside \<^verbatim>\<open>pull\<close> (mpsc_queue.hpp 92-106) or between two pulls; its program
  counter records \<^verbatim>\<open>tail_ptr\<close>, \<^verbatim>\<open>next\<close> and \<^verbatim>\<open>result\<close>.
\<close>

datatype 'a consumer_pc =
    C_idle
  | C_tail pointer
  | C_next pointer pointer
  | C_moved pointer pointer 'a
  | C_stored pointer 'a
  | C_destroyed pointer 'a

text \<open>The queue shared by any number of producers and one consumer, and what the consumer
  has received from \<^verbatim>\<open>pull\<close> so far.\<close>

record 'a system =
  shared :: "'a mpsc_queue"
  producers :: "'a producer multiset"
  cpc :: "'a consumer_pc"
  received :: "'a list"

text \<open>The next access of a producer: \<open>None\<close> when it has nothing left to do.\<close>

definition producer_step ::
  "'a mpsc_queue \<Rightarrow> 'a producer \<Rightarrow> ('a producer, 'a mpsc_queue) outcome option" where
  "producer_step s p =
     (case ppc p of
        P_idle \<Rightarrow>
          (case todo p of
             [] \<Rightarrow> None
           | v # vs \<Rightarrow>
               Some (case allocate s of
                       Return new_node s' \<Rightarrow>
                         Return (p\<lparr>todo := vs, ppc := P_allocated new_node v\<rparr>) s'
                     | Bad_alloc s' \<Rightarrow> Return (p\<lparr>ppc := P_failed\<rparr>) s'
                     | Undefined \<Rightarrow> Undefined))
      | P_allocated new_node v \<Rightarrow>
          Some (and_then (construct s new_node \<lparr>data = v, next_ptr = None\<rparr>) (\<lambda>_ s'.
                  Return (p\<lparr>ppc := P_constructed new_node v\<rparr>) s'))
      | P_constructed new_node v \<Rightarrow>
          Some (and_then (exchange_head s new_node) (\<lambda>prev_head s'.
                  Return (p\<lparr>ppc := P_exchanged prev_head new_node v\<rparr>) s'))
      | P_exchanged prev_head new_node v \<Rightarrow>
          Some (and_then (store_next s prev_head new_node) (\<lambda>_ s'.
                  Return (p\<lparr>ppc := P_idle\<rparr>) s'))
      | P_failed \<Rightarrow> None)"

text \<open>The next access of the consumer, which calls \<^verbatim>\<open>pull\<close> again and again.\<close>

definition consumer_step ::
  "'a mpsc_queue \<Rightarrow> 'a consumer_pc \<Rightarrow> 'a list \<Rightarrow>
     ('a consumer_pc \<times> 'a list, 'a mpsc_queue) outcome" where
  "consumer_step s pc rcv =
     (case pc of
        C_idle \<Rightarrow> Return (C_tail (m_tail s), rcv) s
      | C_tail tail_ptr \<Rightarrow>
          (case load_node s tail_ptr of
             None \<Rightarrow> Undefined
           | Some tn \<Rightarrow>
               (case next_ptr tn of
                  None \<Rightarrow> Return (C_idle, rcv) s
                | Some nx \<Rightarrow> Return (C_next tail_ptr (Some nx), rcv) s))
      | C_next tail_ptr nx \<Rightarrow>
          (case load_node s nx of
             None \<Rightarrow> Undefined
           | Some nn \<Rightarrow> Return (C_moved tail_ptr nx (data nn), rcv) s)
      | C_moved tail_ptr nx result \<Rightarrow> Return (C_stored tail_ptr result, rcv) (s\<lparr>m_tail := nx\<rparr>)
      | C_stored tail_ptr result \<Rightarrow>
          and_then (destroy s tail_ptr) (\<lambda>_ s'. Return (C_destroyed tail_ptr result, rcv) s')
      | C_destroyed tail_ptr result \<Rightarrow>
          and_then (deallocate s tail_ptr) (\<lambda>_ s'. Return (C_idle, rcv @ [result]) s'))"

text \<open>One step of the system: one thread makes its next access.\<close>

inductive step :: "'a system \<Rightarrow> 'a system \<Rightarrow> bool" where
  produce: "producers c = add_mset p M \<Longrightarrow> producer_step (shared c) p = Some (Return p' s') \<Longrightarrow>
            step c (c\<lparr>shared := s', producers := add_mset p' M\<rparr>)"
| consume: "consumer_step (shared c) (cpc c) (received c) = Return (pc', rcv') s' \<Longrightarrow>
            step c (c\<lparr>shared := s', cpc := pc', received := rcv'\<rparr>)"

text \<open>A thread's next access has undefined behaviour.\<close>

definition faulty :: "'a system \<Rightarrow> bool" where
  "faulty c \<longleftrightarrow>
     (\<exists>p. p \<in># producers c \<and> producer_step (shared c) p = Some Undefined) \<or>
     consumer_step (shared c) (cpc c) (received c) = Undefined"

text \<open>The system at the start: the queue as constructed, one producer for each list of
  values, the consumer between pulls.\<close>

definition start :: "'a mpsc_queue \<Rightarrow> 'a list list \<Rightarrow> 'a system" where
  "start s0 vss =
     \<lparr>shared = s0, producers = mset (map (\<lambda>vs. \<lparr>todo = vs, ppc = P_idle\<rparr>) vss),
      cpc = C_idle, received = []\<rparr>"

text \<open>All producers have pushed all their values and the consumer is between pulls.\<close>

definition quiescent :: "'a system \<Rightarrow> bool" where
  "quiescent c \<longleftrightarrow>
     (\<forall>p. p \<in># producers c \<longrightarrow> ppc p = P_idle \<and> todo p = []) \<and> cpc c = C_idle"

subsection \<open>Running a schedule\<close>

text \<open>A schedule names, access by access, the thread that goes next. Running it gives the
  system it leads to, or \<open>None\<close> when a thread it names cannot go.\<close>

datatype thread = Producer nat | Consumer

fun run :: "thread list \<Rightarrow> 'a mpsc_queue \<Rightarrow> 'a producer list \<Rightarrow> 'a consumer_pc \<Rightarrow> 'a list \<Rightarrow>
    ('a mpsc_queue \<times> 'a producer list \<times> 'a consumer_pc \<times> 'a list) option" where
  "run [] s ps pc rcv = Some (s, ps, pc, rcv)"
| "run (Producer i # sch) s ps pc rcv =
     (if i < length ps
      then (case producer_step s (ps ! i) of
              Some (Return p' s') \<Rightarrow> run sch s' (ps[i := p']) pc rcv
            | _ \<Rightarrow> None)
      else None)"
| "run (Consumer # sch) s ps pc rcv =
     (case consumer_step s pc rcv of
        Return (pc', rcv') s' \<Rightarrow> run sch s' ps pc' rcv'
      | _ \<Rightarrow> None)"

section \<open>Specification vocabulary\<close>

text \<open>The states a program can bring a queue into by calling its operations one after the
  other (no call overlaps another).\<close>

inductive reachable :: "'a mpsc_queue \<Rightarrow> bool" where
  constructed: "mpsc_queue cap dflt = Return () s \<Longrightarrow> reachable s"
| pushed: "reachable s \<Longrightarrow> push s v = Return () s' \<Longrightarrow> reachable s'"
| push_failed: "reachable s \<Longrightarrow> push s v = Bad_alloc s' \<Longrightarrow> reachable s'"
| pulled: "reachable s \<Longrightarrow> pull s = Return x s' \<Longrightarrow> reachable s'"
| cleared: "reachable s \<Longrightarrow> clear s = Return () s' \<Longrightarrow> reachable s'"

text \<open>The queue is drained when the next pointer of the node at the tail cursor is null.\<close>

definition drained :: "'a mpsc_queue \<Rightarrow> bool" where
  "drained s = (case load_node s (m_tail s) of Some nd \<Rightarrow> next_ptr nd = None | None \<Rightarrow> False)"

text \<open>The number of allocations the arena can still serve.\<close>

definition room :: "'a mpsc_queue \<Rightarrow> nat" where
  "room s = length (free_list s) + (limit s - fresh s)"

definition node_at :: "(addr, 'a cell) fmap \<Rightarrow> addr \<Rightarrow> 'a node option" where
  "node_at m a = (case fmlookup m a of Some (Obj nd) \<Rightarrow> Some nd | _ \<Rightarrow> None)"

text \<open>
  \<open>path m a r\<close>: in memory \<open>m\<close> the next pointers lead from the node at \<open>a\<close> through the
  nodes listed in \<open>r\<close>, each with the data listed beside it, and the last node's next pointer
  is null.
\<close>

fun path :: "(addr, 'a cell) fmap \<Rightarrow> addr \<Rightarrow> (addr \<times> 'a) list \<Rightarrow> bool" where
  "path m a [] = (case node_at m a of Some nd \<Rightarrow> next_ptr nd = None | None \<Rightarrow> False)"
| "path m a (x # r) =
     (case node_at m a of
        Some nd \<Rightarrow>
          next_ptr nd = Some (fst x) \<and>
          (case node_at m (fst x) of Some nb \<Rightarrow> data nb = snd x | None \<Rightarrow> False) \<and>
          path m (fst x) r
      | None \<Rightarrow> False)"

text \<open>
  Checking a log of allocator calls against the set of addresses handed out and not given
  back: an address is not handed out twice without being given back in between, and only an
  address that is handed out is given back. The result is the set left at the end.
\<close>

fun replay :: "event list \<Rightarrow> addr set \<Rightarrow> addr set option" where
  "replay [] L = Some L"
| "replay (Allocate a # es) L = (if a \<in> L then None else replay es (insert a L))"
| "replay (Deallocate a # es) L = (if a \<in> L then replay es (L - {a}) else None)"
| "replay (e # es) L = replay es L"

fun is_allocate :: "event \<Rightarrow> bool" where
  "is_allocate (Allocate a) = True"
| "is_allocate e = False"

fun is_deallocate :: "event \<Rightarrow> bool" where
  "is_deallocate (Deallocate a) = True"
| "is_deallocate e = False"

definition allocations :: "event list \<Rightarrow> nat" where
  "allocations tr = length (filter is_allocate tr)"

definition deallocations :: "event list \<Rightarrow> nat" where
  "deallocations tr = length (filter is_deallocate tr)"

text \<open>The allocator calls made while the tail cursor passes over the given nodes.\<close>

definition retired :: "addr list \<Rightarrow> event list" where
  "retired as = concat (map (\<lambda>a. [Destroy a, Deallocate a]) as)"

text \<open>The allocator's bookkeeping is consistent with the memory and with its log.\<close>

definition alloc_ok :: "(addr, 'a cell) fmap \<Rightarrow> addr list \<Rightarrow> addr \<Rightarrow> event list \<Rightarrow> bool" where
  "alloc_ok m fl fr tr \<longleftrightarrow>
     distinct fl \<and> set fl \<inter> fmdom' m = {} \<and> set fl \<union> fmdom' m = {..<fr} \<and>
     replay tr {} = Some (fmdom' m)"

definition alloc_inv :: "'a mpsc_queue \<Rightarrow> bool" where
  "alloc_inv s = alloc_ok (mem s) (free_list s) (fresh s) (trace s)"

text \<open>
  The invariant of the queue between calls: the tail cursor is at \<open>t\<close>, the chain from there
  is \<open>r\<close> and ends at the head cursor, no node occurs twice, and the live memory is exactly
  the chain.
\<close>

definition queue_inv :: "'a mpsc_queue \<Rightarrow> addr \<Rightarrow> (addr \<times> 'a) list \<Rightarrow> bool" where
  "queue_inv s t r \<longleftrightarrow>
     alloc_inv s \<and> m_tail s = Some t \<and> path (mem s) t r \<and> distinct (t # map fst r) \<and>
     m_head s = Some (last (t # map fst r)) \<and> fmdom' (mem s) = set (t # map fst r)"

subsection \<open>The invariant of the concurrent system\<close>

text \<open>
  The chain under construction: as \<open>path\<close>, but a node's next pointer may still be null
  where the producer of the following node has exchanged the head and not yet stored the
  link. \<open>gaps\<close> lists these places.
\<close>

fun wpath :: "(addr, 'a cell) fmap \<Rightarrow> addr \<Rightarrow> (addr \<times> 'a) list \<Rightarrow> bool" where
  "wpath m a [] = (case node_at m a of Some nd \<Rightarrow> next_ptr nd = None | None \<Rightarrow> False)"
| "wpath m a (x # r) =
     (case node_at m a of
        Some nd \<Rightarrow>
          (next_ptr nd = Some (fst x) \<or> next_ptr nd = None) \<and>
          (case node_at m (fst x) of Some nb \<Rightarrow> data nb = snd x | None \<Rightarrow> False) \<and>
          wpath m (fst x) r
      | None \<Rightarrow> False)"

fun gaps :: "(addr, 'a cell) fmap \<Rightarrow> addr \<Rightarrow> (addr \<times> 'a) list \<Rightarrow> (addr \<times> addr) list" where
  "gaps m a [] = []"
| "gaps m a (x # r) =
     (case node_at m a of
        Some nd \<Rightarrow> (if next_ptr nd = None then [(a, fst x)] else [])
      | None \<Rightarrow> []) @ gaps m (fst x) r"

text \<open>What a producer holds: the link it has yet to store, the node it has not yet
  published, the value it is pushing.\<close>

definition pending :: "'a producer \<Rightarrow> (addr \<times> addr) multiset" where
  "pending p = (case ppc p of P_exchanged (Some a) (Some b) v \<Rightarrow> {#(a, b)#} | _ \<Rightarrow> {#})"

definition pcell :: "'a producer \<Rightarrow> addr multiset" where
  "pcell p =
     (case ppc p of
        P_allocated (Some a) v \<Rightarrow> {#a#}
      | P_constructed (Some a) v \<Rightarrow> {#a#}
      | _ \<Rightarrow> {#})"

definition inflight :: "'a producer \<Rightarrow> 'a multiset" where
  "inflight p =
     (case ppc p of P_allocated q v \<Rightarrow> {#v#} | P_constructed q v \<Rightarrow> {#v#} | _ \<Rightarrow> {#}) +
     mset (todo p)"

definition pok :: "(addr, 'a cell) fmap \<Rightarrow> 'a producer \<Rightarrow> bool" where
  "pok m p =
     (case ppc p of
        P_idle \<Rightarrow> True
      | P_allocated q v \<Rightarrow> (case q of Some a \<Rightarrow> fmlookup m a = Some Raw | None \<Rightarrow> False)
      | P_constructed q v \<Rightarrow>
          (case q of
             Some a \<Rightarrow> node_at m a = Some \<lparr>data = v, next_ptr = None\<rparr>
           | None \<Rightarrow> False)
      | P_exchanged q q' v \<Rightarrow> q \<noteq> None \<and> q' \<noteq> None
      | P_failed \<Rightarrow> True)"

text \<open>What the consumer holds: the node it has unlinked and not yet given back, the value it
  is about to return.\<close>

definition ccell :: "'a consumer_pc \<Rightarrow> addr multiset" where
  "ccell pc =
     (case pc of C_stored (Some a) v \<Rightarrow> {#a#} | C_destroyed (Some a) v \<Rightarrow> {#a#} | _ \<Rightarrow> {#})"

definition cheld :: "'a consumer_pc \<Rightarrow> 'a multiset" where
  "cheld pc = (case pc of C_stored q v \<Rightarrow> {#v#} | C_destroyed q v \<Rightarrow> {#v#} | _ \<Rightarrow> {#})"

definition cok :: "(addr, 'a cell) fmap \<Rightarrow> addr \<Rightarrow> (addr \<times> 'a) list \<Rightarrow> 'a consumer_pc \<Rightarrow> bool" where
  "cok m t r pc =
     (case pc of
        C_idle \<Rightarrow> True
      | C_tail q \<Rightarrow> q = Some t
      | C_next q q' \<Rightarrow>
          q = Some t \<and>
          (case r of
             [] \<Rightarrow> False
           | x # r' \<Rightarrow> q' = Some (fst x) \<and> map_option next_ptr (node_at m t) = Some (Some (fst x)))
      | C_moved q q' v \<Rightarrow>
          q = Some t \<and>
          (case r of
             [] \<Rightarrow> False
           | x # r' \<Rightarrow>
               q' = Some (fst x) \<and> v = snd x \<and>
               map_option next_ptr (node_at m t) = Some (Some (fst x)))
      | C_stored q v \<Rightarrow> (case q of Some a \<Rightarrow> node_at m a \<noteq> None | None \<Rightarrow> False)
      | C_destroyed q v \<Rightarrow> (case q of Some a \<Rightarrow> fmlookup m a = Some Raw | None \<Rightarrow> False))"

text \<open>
  The invariant: the chain from the tail cursor \<open>t\<close> is \<open>r\<close>, with a gap exactly where a
  producer has a link to store; every live cell is a node of the chain or held by exactly one
  thread; and the values received, held, in the chain or yet to be pushed are the values
  \<open>vals\<close> the producers started with.
\<close>

definition cinv :: "'a multiset \<Rightarrow> 'a system \<Rightarrow> addr \<Rightarrow> (addr \<times> 'a) list \<Rightarrow> bool" where
  "cinv vals c t r \<longleftrightarrow>
     alloc_inv (shared c) \<and> m_tail (shared c) = Some t \<and> wpath (mem (shared c)) t r \<and>
     distinct (t # map fst r) \<and> m_head (shared c) = Some (last (t # map fst r)) \<and>
     mset (t # map fst r) + sum_mset (image_mset pcell (producers c)) + ccell (cpc c) =
       mset_set (fmdom' (mem (shared c))) \<and>
     (\<forall>p. p \<in># producers c \<longrightarrow> pok (mem (shared c)) p) \<and>
     sum_mset (image_mset pending (producers c)) = mset (gaps (mem (shared c)) t r) \<and>
     cok (mem (shared c)) t r (cpc c) \<and>
     mset (received c) + cheld (cpc c) + mset (map snd r) +
       sum_mset (image_mset inflight (producers c)) = vals"

section \<open>Example states\<close>

text \<open>A queue of integers over an arena of four cells: as constructed, and after pushing 7
  and 8.\<close>

definition q_fresh :: "int mpsc_queue" where
  "q_fresh =
     \<lparr>m_head = Some 0, m_tail = Some 0,
      mem = fmupd 0 (Obj \<lparr>data = 0, next_ptr = None\<rparr>) fmempty,
      free_list = [], fresh = Suc 0, limit = 4, trace = [Allocate 0, Construct 0]\<rparr>"

definition q_two :: "int mpsc_queue" where
  "q_two =
     \<lparr>m_head = Some (Suc (Suc 0)), m_tail = Some 0,
      mem = fmupd (Suc 0) (Obj \<lparr>data = 7, next_ptr = Some (Suc (Suc 0))\<rparr>)
             (fmupd (Suc (Suc 0)) (Obj \<lparr>data = 8, next_ptr = None\<rparr>)
               (fmupd 0 (Obj \<lparr>data = 0, next_ptr = Some (Suc 0)\<rparr>)
                 (fmupd (Suc 0) (Obj \<lparr>data = 7, next_ptr = None\<rparr>)
                   (fmupd 0 (Obj \<lparr>data = 0, next_ptr = None\<rparr>) fmempty)))),
      free_list = [], fresh = Suc (Suc (Suc 0)), limit = 4,
      trace = [Allocate 0, Construct 0, Allocate (Suc 0), Construct (Suc 0),
               Allocate (Suc (Suc 0)), Construct (Suc (Suc 0))]\<rparr>"

text \<open>
  Two producers push 1 and 2 into the queue \<open>q_fresh\<close>. The first exchanges the head; the
  consumer then finds the queue empty, because the link is not yet stored; the second
  producer pushes; the first stores its link; the consumer pulls once.
\<close>

definition two_producers :: "int producer list" where
  "two_producers = [\<lparr>todo = [1], ppc = P_idle\<rparr>, \<lparr>todo = [2], ppc = P_idle\<rparr>]"

definition schedule :: "thread list" where
  "schedule =
     [Producer 0, Producer 0, Producer 0, Consumer, Consumer,
      Producer 1, Producer 1, Producer 1, Producer 1, Producer 0,
      Consumer, Consumer, Consumer, Consumer, Consumer, Consumer]"

definition q_after :: "int mpsc_queue" where
  "q_after =
     \<lparr>m_head = Some (Suc (Suc 0)), m_tail = Some (Suc 0),
      mem = fmdrop 0 (fmupd 0 Raw
              (fmupd (Suc 0) (Obj \<lparr>data = 1, next_ptr = Some (Suc (Suc 0))\<rparr>)
                (fmupd (Suc (Suc 0)) (Obj \<lparr>data = 2, next_ptr = None\<rparr>)
                  (fmupd (Suc 0) (Obj \<lparr>data = 1, next_ptr = None\<rparr>)
                    (fmupd 0 (Obj \<lparr>data = 0, next_ptr = None\<rparr>) fmempty))))),
      free_list = [0], fresh = Suc (Suc (Suc 0)), limit = 4,
      trace = [Allocate 0, Construct 0, Allocate (Suc 0), Construct (Suc 0),
               Allocate (Suc (Suc 0)), Construct (Suc (Suc 0)), Destroy 0, Deallocate 0]\<rparr>"

section \<open>Memory and allocator lemmas\<close>

lemma log_sel [simp]:
  "m_head (log e s) = m_head s" "m_tail (log e s) = m_tail s" "mem (log e s) = mem s"
  "free_list (log e s) = free_list s" "fresh (log e s) = fresh s" "limit (log e s) = limit s"
  "trace (log e s) = trace s @ [e]"
  by (simp_all add: log_def)

lemma blank_sel [simp]:
  "m_head (blank cap) = None" "m_tail (blank cap) = None" "mem (blank cap) = fmempty"
  "free_list (blank cap) = []" "fresh (blank cap) = 0" "limit (blank cap) = cap"
  "trace (blank cap) = []"
  by (simp_all add: blank_def)

lemma node_at_upd [simp]:
  "node_at (fmupd a c m) b =
     (if a = b then (case c of Obj nd \<Rightarrow> Some nd | Raw \<Rightarrow> None) else node_at m b)"
  by (simp add: node_at_def)

lemma node_at_drop [simp]: "node_at (fmdrop a m) b = (if a = b then None else node_at m b)"
  by (simp add: node_at_def)

lemma node_at_empty [simp]: "node_at fmempty a = None"
  by (simp add: node_at_def)

lemma node_at_Some: "node_at m a = Some nd \<longleftrightarrow> fmlookup m a = Some (Obj nd)"
  by (simp add: node_at_def split: option.splits cell.splits)

lemma load_node_Some [simp]: "load_node s (Some a) = node_at (mem s) a"
  by (simp add: load_node_def node_at_def)

lemma load_node_None [simp]: "load_node s None = None"
  by (simp add: load_node_def)

lemma in_dom_node: "node_at m a = Some nd \<Longrightarrow> a \<in> fmdom' m"
  by (simp add: node_at_Some fmlookup_dom'_iff)

lemma path_upd_other: "a \<notin> set (t # map fst r) \<Longrightarrow> path (fmupd a c m) t r = path m t r"
  by (induction r arbitrary: t) (auto split: option.splits)

lemma path_drop_other: "a \<notin> set (t # map fst r) \<Longrightarrow> path (fmdrop a m) t r = path m t r"
  by (induction r arbitrary: t) (auto split: option.splits)

lemma path_last:
  "path m t r \<Longrightarrow> \<exists>nd. node_at m (last (t # map fst r)) = Some nd \<and> next_ptr nd = None"
  by (induction r arbitrary: t) (auto split: option.splits)

lemma path_snoc:
  assumes "path m t r" and "distinct (t # map fst r)" and "new \<notin> set (t # map fst r)"
    and "node_at m (last (t # map fst r)) = Some nd"
  shows "path (fmupd (last (t # map fst r)) (Obj (nd\<lparr>next_ptr := Some new\<rparr>))
           (fmupd new (Obj \<lparr>data = v, next_ptr = None\<rparr>) m)) t (r @ [(new, v)])"
  using assms
proof (induction r arbitrary: t)
  case Nil
  then show ?case by (auto split: option.splits)
next
  case (Cons x r)
  from last_in_set [of "map fst r"] Cons show ?case by (auto split: option.splits)
qed

lemma path_unique: "path m t r \<Longrightarrow> path m t r' \<Longrightarrow> r = r'"
proof (induction r arbitrary: t r')
  case Nil
  then show ?case by (cases r') (auto split: option.splits)
next
  case (Cons x r)
  then show ?case by (cases r') (auto split: option.splits simp: prod_eq_iff)
qed

lemma replay_append:
  "replay (es @ fs) L = (case replay es L of None \<Rightarrow> None | Some L' \<Rightarrow> replay fs L')"
  by (induction es L rule: replay.induct) simp_all

lemma replay_counts:
  "finite L \<Longrightarrow> replay tr L = Some L' \<Longrightarrow>
   finite L' \<and> allocations tr + card L = deallocations tr + card L'"
proof (induction tr L rule: replay.induct)
  case (1 L)
  then show ?case by (simp add: allocations_def deallocations_def)
next
  case (2 a es L)
  then show ?case by (auto simp: allocations_def deallocations_def split: if_splits)
next
  case (3 a es L)
  from 3 have "a \<in> L" by (simp split: if_splits)
  with 3 have "allocations es + card (L - {a}) = deallocations es + card L'" and "finite L'"
    by (simp_all add: allocations_def deallocations_def)
  moreover from \<open>finite L\<close> \<open>a \<in> L\<close> have "card L = Suc (card (L - {a}))"
    by (rule card.remove)
  ultimately show ?case by (simp add: allocations_def deallocations_def)
qed (simp_all add: allocations_def deallocations_def)

lemma alloc_ok_fresh:
  "alloc_ok m [] fr tr \<Longrightarrow>
   fr \<notin> fmdom' m \<and> alloc_ok (fmupd fr Raw m) [] (Suc fr) (tr @ [Allocate fr])"
  by (auto simp: alloc_ok_def replay_append lessThan_Suc)

lemma alloc_ok_reuse:
  "alloc_ok m (a # fl) fr tr \<Longrightarrow>
   a \<notin> fmdom' m \<and> alloc_ok (fmupd a Raw m) fl fr (tr @ [Allocate a])"
  by (auto simp: alloc_ok_def replay_append)

lemma alloc_ok_free:
  "alloc_ok m fl fr tr \<Longrightarrow> a \<in> fmdom' m \<Longrightarrow>
   alloc_ok (fmdrop a m) (a # fl) fr (tr @ [Deallocate a])"
  by (auto simp: alloc_ok_def replay_append)

lemma alloc_ok_upd: "alloc_ok m fl fr tr \<Longrightarrow> a \<in> fmdom' m \<Longrightarrow> alloc_ok (fmupd a c m) fl fr tr"
  by (auto simp: alloc_ok_def)

lemma alloc_ok_event:
  "alloc_ok m fl fr tr \<Longrightarrow> e = Construct a \<or> e = Destroy a \<or> e = Alloc_failed \<Longrightarrow>
   alloc_ok m fl fr (tr @ [e])"
  by (auto simp: alloc_ok_def replay_append)

lemma blank_alloc_inv: "alloc_inv (blank cap)"
  by (simp add: alloc_inv_def alloc_ok_def)

subsection \<open>What each call to the allocator and each access does\<close>

lemma allocate_cases:
  assumes "alloc_inv s"
  obtains (ok) a s' where "allocate s = Return (Some a) s'" "a \<notin> fmdom' (mem s)"
      "mem s' = fmupd a Raw (mem s)" "m_head s' = m_head s" "m_tail s' = m_tail s"
      "limit s' = limit s" "trace s' = trace s @ [Allocate a]" "alloc_inv s'"
      "Suc (room s') = room s"
    | (fail) "allocate s = Bad_alloc (log Alloc_failed s)" "room s = 0"
proof (cases "free_list s")
  case Nil
  show ?thesis
  proof (cases "fresh s < limit s")
    case True
    from assms Nil have "alloc_ok (mem s) [] (fresh s) (trace s)" by (simp add: alloc_inv_def)
    from alloc_ok_fresh [OF this] Nil True show ?thesis
      by (intro ok [of "fresh s" "log (Allocate (fresh s))
            (s\<lparr>fresh := Suc (fresh s), mem := fmupd (fresh s) Raw (mem s)\<rparr>)"])
        (simp_all add: allocate_def alloc_inv_def room_def)
  next
    case False
    with Nil show ?thesis by (intro fail) (simp_all add: allocate_def room_def)
  qed
next
  case (Cons a rest)
  from assms Cons have "alloc_ok (mem s) (a # rest) (fresh s) (trace s)"
    by (simp add: alloc_inv_def)
  from alloc_ok_reuse [OF this] Cons show ?thesis
    by (intro ok [of a "log (Allocate a) (s\<lparr>free_list := rest, mem := fmupd a Raw (mem s)\<rparr>)"])
      (simp_all add: allocate_def alloc_inv_def room_def)
qed

lemma construct_ok:
  assumes "fmlookup (mem s) a = Some Raw"
  obtains s' where "construct s (Some a) nd = Return () s'"
    "mem s' = fmupd a (Obj nd) (mem s)" "m_head s' = m_head s" "m_tail s' = m_tail s"
    "free_list s' = free_list s" "fresh s' = fresh s" "limit s' = limit s"
    "trace s' = trace s @ [Construct a]"
  using assms
  by (intro that [of "log (Construct a) (s\<lparr>mem := fmupd a (Obj nd) (mem s)\<rparr>)"])
    (simp_all add: construct_def)

lemma destroy_ok:
  assumes "node_at (mem s) a = Some nd"
  obtains s' where "destroy s (Some a) = Return () s'"
    "mem s' = fmupd a Raw (mem s)" "m_head s' = m_head s" "m_tail s' = m_tail s"
    "free_list s' = free_list s" "fresh s' = fresh s" "limit s' = limit s"
    "trace s' = trace s @ [Destroy a]"
  using assms
  by (intro that [of "log (Destroy a) (s\<lparr>mem := fmupd a Raw (mem s)\<rparr>)"])
    (simp_all add: destroy_def node_at_Some)

lemma deallocate_ok:
  assumes "fmlookup (mem s) a = Some c"
  obtains s' where "deallocate s (Some a) = Return () s'"
    "mem s' = fmdrop a (mem s)" "m_head s' = m_head s" "m_tail s' = m_tail s"
    "free_list s' = a # free_list s" "fresh s' = fresh s" "limit s' = limit s"
    "trace s' = trace s @ [Deallocate a]"
  using assms
  by (intro that [of "log (Deallocate a)
        (s\<lparr>mem := fmdrop a (mem s), free_list := a # free_list s\<rparr>)"])
    (simp_all add: deallocate_def)

lemma store_next_ok:
  assumes "node_at (mem s) a = Some nd"
  obtains s' where "store_next s (Some a) v = Return () s'"
    "mem s' = fmupd a (Obj (nd\<lparr>next_ptr := v\<rparr>)) (mem s)" "m_head s' = m_head s"
    "m_tail s' = m_tail s" "free_list s' = free_list s" "fresh s' = fresh s"
    "limit s' = limit s" "trace s' = trace s"
  using assms
  by (intro that [of "s\<lparr>mem := fmupd a (Obj (nd\<lparr>next_ptr := v\<rparr>)) (mem s)\<rparr>"])
    (simp_all add: store_next_def node_at_Some)

lemma exchange_head_ok:
  obtains s' where "exchange_head s p = Return (m_head s) s'"
    "mem s' = mem s" "m_head s' = p" "m_tail s' = m_tail s"
    "free_list s' = free_list s" "fresh s' = fresh s" "limit s' = limit s"
    "trace s' = trace s"
  by (intro that [of "s\<lparr>m_head := p\<rparr>"]) (simp_all add: exchange_head_def)

section \<open>The operations preserve the invariant\<close>

lemma mpsc_queue_ok:
  assumes "0 < cap"
  shows "\<exists>s. mpsc_queue cap dflt = Return () s \<and> queue_inv s 0 [] \<and> limit s = cap \<and>
           trace s = [Allocate 0, Construct 0] \<and> Suc (room s) = cap"
proof -
  have "alloc_inv (blank cap :: 'a mpsc_queue)" by (rule blank_alloc_inv)
  then show ?thesis
  proof (cases rule: allocate_cases)
    case (ok a s1)
    from ok(1) assms have a0: "a = 0" by (simp add: allocate_def)
    from ok have "fmlookup (mem s1) a = Some Raw" by simp
    then obtain s2 where s2: "construct s1 (Some a) \<lparr>data = dflt, next_ptr = None\<rparr> = Return () s2"
      "mem s2 = fmupd a (Obj \<lparr>data = dflt, next_ptr = None\<rparr>) (mem s1)" "m_head s2 = m_head s1"
      "m_tail s2 = m_tail s1" "free_list s2 = free_list s1" "fresh s2 = fresh s1"
      "limit s2 = limit s1" "trace s2 = trace s1 @ [Construct a]"
      by (rule construct_ok)
    let ?s = "s2\<lparr>m_head := Some a, m_tail := Some a\<rparr>"
    from ok(1) s2(1) have run: "mpsc_queue cap dflt = Return () ?s"
      by (simp add: mpsc_queue_def)
    from ok(8) have "alloc_ok (mem s1) (free_list s1) (fresh s1) (trace s1)"
      by (simp add: alloc_inv_def)
    then have "alloc_ok (mem s2) (free_list s1) (fresh s1) (trace s1)"
      unfolding s2 by (rule alloc_ok_upd) (simp add: ok)
    then have "alloc_ok (mem s2) (free_list s1) (fresh s1) (trace s2)"
      unfolding s2(8) by (rule alloc_ok_event) simp
    then have "alloc_inv ?s" by (simp add: alloc_inv_def s2)
    then have "queue_inv ?s 0 []" using a0 by (simp add: queue_inv_def s2 ok)
    moreover have "limit ?s = cap" by (simp add: s2 ok)
    moreover have "trace ?s = [Allocate 0, Construct 0]" using a0 by (simp add: s2 ok)
    moreover have "room ?s = room s1" by (simp add: room_def s2)
    with ok(9) have "Suc (room ?s) = cap" by (simp add: room_def)
    ultimately show ?thesis using run by blast
  next
    case fail
    with assms show ?thesis by (simp add: room_def)
  qed
qed

lemma mpsc_queue_Return:
  assumes "mpsc_queue cap dflt = Return () s"
  shows "queue_inv s 0 [] \<and> 0 < cap"
proof (cases "0 < cap")
  case True
  from mpsc_queue_ok [OF True, of dflt] assms show ?thesis by auto
next
  case False
  with assms show ?thesis by (simp add: mpsc_queue_def allocate_def)
qed

lemma push_impl_ok:
  assumes inv: "queue_inv s t r" and room: "0 < room s"
  shows "\<exists>a s'. push_impl s v = Return () s' \<and> queue_inv s' t (r @ [(a, v)]) \<and>
           trace s' = trace s @ [Allocate a, Construct a] \<and> limit s' = limit s \<and>
           Suc (room s') = room s"
proof -
  from inv have ai: "alloc_inv s" by (simp add: queue_inv_def)
  let ?e = "last (t # map fst r)"
  from inv obtain nd where nd: "node_at (mem s) ?e = Some nd"
    using path_last [of "mem s" t r] by (auto simp: queue_inv_def)
  then have ein: "?e \<in> fmdom' (mem s)" by (rule in_dom_node)
  from ai show ?thesis
  proof (cases rule: allocate_cases)
    case (ok a s1)
    from ok inv have fresh: "a \<notin> set (t # map fst r)" by (simp add: queue_inv_def)
    have "?e \<in> set (t # map fst r)" by (rule last_in_set) simp
    with fresh have ne: "?e \<noteq> a" by metis
    from ok have "fmlookup (mem s1) a = Some Raw" by simp
    then obtain s2 where s2: "construct s1 (Some a) \<lparr>data = v, next_ptr = None\<rparr> = Return () s2"
      "mem s2 = fmupd a (Obj \<lparr>data = v, next_ptr = None\<rparr>) (mem s1)" "m_head s2 = m_head s1"
      "m_tail s2 = m_tail s1" "free_list s2 = free_list s1" "fresh s2 = fresh s1"
      "limit s2 = limit s1" "trace s2 = trace s1 @ [Construct a]"
      by (rule construct_ok)
    obtain s3 where s3: "exchange_head s2 (Some a) = Return (m_head s2) s3"
      "mem s3 = mem s2" "m_head s3 = Some a" "m_tail s3 = m_tail s2"
      "free_list s3 = free_list s2" "fresh s3 = fresh s2" "limit s3 = limit s2"
      "trace s3 = trace s2"
      by (rule exchange_head_ok)
    from inv ok s2 have hd: "m_head s2 = Some ?e" by (simp add: queue_inv_def)
    from nd ne ok s2 s3 have "node_at (mem s3) ?e = Some nd" by simp
    then obtain s4 where s4: "store_next s3 (Some ?e) (Some a) = Return () s4"
      "mem s4 = fmupd ?e (Obj (nd\<lparr>next_ptr := Some a\<rparr>)) (mem s3)" "m_head s4 = m_head s3"
      "m_tail s4 = m_tail s3" "free_list s4 = free_list s3" "fresh s4 = fresh s3"
      "limit s4 = limit s3" "trace s4 = trace s3"
      by (rule store_next_ok)
    from ok(1) s2(1) s3(1) s4(1) hd have run: "push_impl s v = Return () s4"
      by (simp add: push_impl_def)
    have m4: "mem s4 = fmupd ?e (Obj (nd\<lparr>next_ptr := Some a\<rparr>))
                 (fmupd a (Obj \<lparr>data = v, next_ptr = None\<rparr>) (mem s))"
      by (rule fmap_ext) (simp add: s4 s3 s2 ok ne)
    from inv fresh nd have p: "path (mem s4) t (r @ [(a, v)])"
      unfolding m4 by (intro path_snoc) (simp_all add: queue_inv_def)
    from ein have dom4: "fmdom' (mem s4) = insert a (fmdom' (mem s))"
      unfolding m4 by auto
    from ok(8) have "alloc_ok (mem s1) (free_list s1) (fresh s1) (trace s1)"
      by (simp add: alloc_inv_def)
    then have "alloc_ok (mem s2) (free_list s1) (fresh s1) (trace s1)"
      unfolding s2 by (rule alloc_ok_upd) (simp add: ok)
    then have "alloc_ok (mem s2) (free_list s1) (fresh s1) (trace s2)"
      unfolding s2(8) by (rule alloc_ok_event) simp
    then have "alloc_ok (mem s4) (free_list s1) (fresh s1) (trace s2)"
      unfolding s4 s3 by (rule alloc_ok_upd) (use ein ok s2 in simp)
    then have a4: "alloc_inv s4" by (simp add: alloc_inv_def s4 s3 s2)
    have "m_tail s4 = Some t" using inv by (simp add: s4 s3 s2 ok queue_inv_def)
    moreover have "m_head s4 = Some (last (t # map fst (r @ [(a, v)])))" by (simp add: s4 s3)
    moreover have "distinct (t # map fst (r @ [(a, v)]))"
      using inv fresh by (auto simp: queue_inv_def)
    moreover have "fmdom' (mem s4) = set (t # map fst (r @ [(a, v)]))"
      using inv dom4 by (auto simp: queue_inv_def)
    ultimately have "queue_inv s4 t (r @ [(a, v)])" using p a4 by (simp add: queue_inv_def)
    moreover have "trace s4 = trace s @ [Allocate a, Construct a]" by (simp add: s4 s3 s2 ok)
    moreover have "limit s4 = limit s" by (simp add: s4 s3 s2 ok)
    moreover have "room s4 = room s1" by (simp add: room_def s4 s3 s2)
    with ok(9) have "Suc (room s4) = room s" by simp
    ultimately show ?thesis using run by blast
  next
    case fail
    with room show ?thesis by simp
  qed
qed

lemma push_impl_fail:
  assumes "alloc_inv s" and "room s = 0"
  shows "push_impl s v = Bad_alloc (log Alloc_failed s)"
  using assms(1)
proof (cases rule: allocate_cases)
  case (ok a s')
  with assms(2) show ?thesis by simp
next
  case fail
  then show ?thesis by (simp add: push_impl_def)
qed

lemma queue_inv_log_failed:
  assumes "queue_inv s t r"
  shows "queue_inv (log Alloc_failed s) t r"
proof -
  from assms have "alloc_ok (mem s) (free_list s) (fresh s) (trace s)"
    by (simp add: queue_inv_def alloc_inv_def)
  then have "alloc_ok (mem s) (free_list s) (fresh s) (trace s @ [Alloc_failed])"
    by (rule alloc_ok_event) simp
  with assms show ?thesis by (simp add: queue_inv_def alloc_inv_def)
qed

lemma pull_empty:
  assumes "queue_inv s t []"
  shows "pull s = Return None s"
  using assms by (auto simp: queue_inv_def pull_def split: option.splits)

text \<open>Retiring the node at the tail cursor: the part that \<^verbatim>\<open>pull\<close> and the body of the loop
  of \<^verbatim>\<open>clear\<close> share.\<close>

lemma retire_ok:
  assumes inv: "queue_inv s t ((b, v) # r)"
  obtains s3 where
    "and_then (destroy (s\<lparr>m_tail := Some b\<rparr>) (Some t)) (\<lambda>_ s2.
       and_then (deallocate s2 (Some t)) (\<lambda>_ s3. Return x s3)) = Return x s3"
    "queue_inv s3 b r" "trace s3 = trace s @ [Destroy t, Deallocate t]" "limit s3 = limit s"
    "mem s3 = fmdrop t (mem s)" "m_head s3 = m_head s"
proof -
  let ?s1 = "s\<lparr>m_tail := Some b\<rparr>"
  from inv obtain tn where tn: "node_at (mem s) t = Some tn" "next_ptr tn = Some b"
    and p: "path (mem s) b r" and d: "distinct (t # b # map fst r)"
    and hd: "m_head s = Some (last (b # map fst r))"
    and dom: "fmdom' (mem s) = set (t # b # map fst r)" and ai: "alloc_inv s"
    by (auto simp: queue_inv_def split: option.splits)
  from tn have "node_at (mem ?s1) t = Some tn" by simp
  then obtain s2 where s2: "destroy ?s1 (Some t) = Return () s2"
    "mem s2 = fmupd t Raw (mem ?s1)" "m_head s2 = m_head ?s1" "m_tail s2 = m_tail ?s1"
    "free_list s2 = free_list ?s1" "fresh s2 = fresh ?s1" "limit s2 = limit ?s1"
    "trace s2 = trace ?s1 @ [Destroy t]"
    by (rule destroy_ok)
  have "fmlookup (mem s2) t = Some Raw" by (simp add: s2)
  then obtain s3 where s3: "deallocate s2 (Some t) = Return () s3"
    "mem s3 = fmdrop t (mem s2)" "m_head s3 = m_head s2" "m_tail s3 = m_tail s2"
    "free_list s3 = t # free_list s2" "fresh s3 = fresh s2" "limit s3 = limit s2"
    "trace s3 = trace s2 @ [Deallocate t]"
    by (rule deallocate_ok)
  have m3: "mem s3 = fmdrop t (mem s)"
    by (rule fmap_ext) (simp add: s3 s2)
  from tn(1) have tin: "t \<in> fmdom' (mem s)" by (rule in_dom_node)
  from ai have "alloc_ok (mem s) (free_list s) (fresh s) (trace s)" by (simp add: alloc_inv_def)
  then have "alloc_ok (mem s) (free_list s) (fresh s) (trace s @ [Destroy t])"
    by (rule alloc_ok_event) simp
  from alloc_ok_free [OF this tin] have a3: "alloc_inv s3"
    by (simp add: alloc_inv_def m3 s3 s2)
  from p d have "path (mem s3) b r" unfolding m3 by (subst path_drop_other) auto
  moreover from dom d have "fmdom' (mem s3) = set (b # map fst r)" unfolding m3 by auto
  ultimately have "queue_inv s3 b r" using a3 d hd by (simp add: queue_inv_def s3 s2)
  moreover have "trace s3 = trace s @ [Destroy t, Deallocate t]" by (simp add: s3 s2)
  moreover have "limit s3 = limit s" by (simp add: s3 s2)
  moreover have "m_head s3 = m_head s" by (simp add: s3 s2)
  ultimately show thesis using s2(1) s3(1) m3 by (intro that [of s3]) simp_all
qed

lemma pull_ok:
  assumes inv: "queue_inv s t ((b, v) # r)"
  shows "\<exists>s'. pull s = Return (Some v) s' \<and> queue_inv s' b r \<and>
           trace s' = trace s @ [Destroy t, Deallocate t] \<and> limit s' = limit s"
proof -
  from inv obtain tn nb where tn: "node_at (mem s) t = Some tn" "next_ptr tn = Some b"
    "node_at (mem s) b = Some nb" "data nb = v" "m_tail s = Some t"
    by (auto simp: queue_inv_def split: option.splits)
  from inv obtain s3 where s3:
    "and_then (destroy (s\<lparr>m_tail := Some b\<rparr>) (Some t)) (\<lambda>_ s2.
       and_then (deallocate s2 (Some t)) (\<lambda>_ s3. Return (Some v) s3)) = Return (Some v) s3"
    "queue_inv s3 b r" "trace s3 = trace s @ [Destroy t, Deallocate t]" "limit s3 = limit s"
    by (rule retire_ok)
  from tn s3(1) have "pull s = Return (Some v) s3" by (simp add: pull_def)
  with s3 show ?thesis by blast
qed

lemma clear_body_empty:
  assumes "queue_inv s t []"
  shows "clear_body s (Some t) = Return None s"
  using assms by (auto simp: queue_inv_def clear_body_def split: option.splits)

lemma clear_body_ok:
  assumes inv: "queue_inv s t ((b, v) # r)"
  shows "\<exists>s'. clear_body s (Some t) = Return (Some (Some b)) s' \<and> queue_inv s' b r \<and>
           trace s' = trace s @ [Destroy t, Deallocate t] \<and> limit s' = limit s \<and>
           mem s' = fmdrop t (mem s) \<and> m_head s' = m_head s"
proof -
  from inv obtain tn where tn: "node_at (mem s) t = Some tn" "next_ptr tn = Some b"
    by (auto simp: queue_inv_def split: option.splits)
  from inv obtain s3 where s3:
    "and_then (destroy (s\<lparr>m_tail := Some b\<rparr>) (Some t)) (\<lambda>_ s2.
       and_then (deallocate s2 (Some t)) (\<lambda>_ s3. Return (Some (Some b)) s3)) =
     Return (Some (Some b)) s3"
    "queue_inv s3 b r" "trace s3 = trace s @ [Destroy t, Deallocate t]" "limit s3 = limit s"
    "mem s3 = fmdrop t (mem s)" "m_head s3 = m_head s"
    by (rule retire_ok)
  from tn s3(1) have "clear_body s (Some t) = Return (Some (Some b)) s3"
    by (simp add: clear_body_def)
  with s3 show ?thesis by blast
qed

lemma clear_loop_ok:
  assumes "queue_inv s t r"
  shows "\<exists>s'. clear_loop s (Some t) = Return () s' \<and> queue_inv s' (last (t # map fst r)) [] \<and>
           trace s' = trace s @ retired (butlast (t # map fst r)) \<and> limit s' = limit s \<and>
           node_at (mem s') (last (t # map fst r)) = node_at (mem s) (last (t # map fst r)) \<and>
           m_head s' = m_head s"
  using assms
proof (induction r arbitrary: s t)
  case Nil
  then show ?case by (subst clear_loop.simps) (simp add: clear_body_empty retired_def)
next
  case (Cons x r)
  obtain b v where x: "x = (b, v)" by (cases x)
  from Cons.prems have inv: "queue_inv s t ((b, v) # r)" by (simp add: x)
  from clear_body_ok [OF inv] obtain s1 where s1:
    "clear_body s (Some t) = Return (Some (Some b)) s1"
    "queue_inv s1 b r" "trace s1 = trace s @ [Destroy t, Deallocate t]" "limit s1 = limit s"
    "mem s1 = fmdrop t (mem s)" "m_head s1 = m_head s"
    by blast
  from Cons.IH [OF s1(2)] obtain s' where s': "clear_loop s1 (Some b) = Return () s'"
    "queue_inv s' (last (b # map fst r)) []"
    "trace s' = trace s1 @ retired (butlast (b # map fst r))" "limit s' = limit s1"
    "node_at (mem s') (last (b # map fst r)) = node_at (mem s1) (last (b # map fst r))"
    "m_head s' = m_head s1"
    by blast
  have "last (b # map fst r) \<in> set (b # map fst r)" by (rule last_in_set) simp
  moreover from inv have "t \<notin> set (b # map fst r)" by (simp add: queue_inv_def)
  ultimately have ne: "t \<noteq> last (b # map fst r)" by metis
  from s1(1) s'(1) have "clear_loop s (Some t) = Return () s'"
    by (subst clear_loop.simps) simp
  moreover from s'(2) have "queue_inv s' (last (t # map fst (x # r))) []" by (simp add: x)
  moreover from s'(3) s1(3) have "trace s' = trace s @ retired (butlast (t # map fst (x # r)))"
    by (simp add: x retired_def)
  moreover from s'(4) s1(4) have "limit s' = limit s" by simp
  moreover from s'(5) s1(5) ne
  have "node_at (mem s') (last (t # map fst (x # r))) = node_at (mem s) (last (t # map fst (x # r)))"
    by (simp add: x)
  moreover from s'(6) s1(6) have "m_head s' = m_head s" by simp
  ultimately show ?case by blast
qed

lemma clear_ok:
  assumes "queue_inv s t r"
  shows "\<exists>s'. clear s = Return () s' \<and> queue_inv s' (last (t # map fst r)) [] \<and>
           trace s' = trace s @ retired (butlast (t # map fst r)) \<and> limit s' = limit s \<and>
           node_at (mem s') (last (t # map fst r)) = node_at (mem s) (last (t # map fst r)) \<and>
           m_head s' = m_head s"
  using clear_loop_ok [OF assms] assms by (simp add: clear_def queue_inv_def)

lemma destructor_ok:
  assumes "queue_inv s t r"
  shows "\<exists>s1 s2 s'. clear s = Return () s1 \<and> destructor s = Return () s' \<and>
           queue_inv s1 (last (t # map fst r)) [] \<and> mem s' = fmempty \<and> alloc_inv s' \<and>
           trace s' = trace s1 @ [Destroy (last (t # map fst r)), Deallocate (last (t # map fst r))] \<and>
           destroy s1 (m_head s1) = Return () s2 \<and> deallocate s2 (m_tail s2) = Return () s' \<and>
           m_tail s2 = m_tail s1 \<and> m_head s = m_head s1"
proof -
  let ?e = "last (t # map fst r)"
  from clear_ok [OF assms] obtain s1 where s1: "clear s = Return () s1" "queue_inv s1 ?e []"
    and hh: "m_head s1 = m_head s"
    by blast
  from s1(2) obtain nd where nd: "node_at (mem s1) ?e = Some nd" and h: "m_head s1 = Some ?e"
    and tl: "m_tail s1 = Some ?e" and dom: "fmdom' (mem s1) = {?e}" and ai: "alloc_inv s1"
    by (auto simp: queue_inv_def split: option.splits)
  from nd obtain s2 where s2: "destroy s1 (Some ?e) = Return () s2"
    "mem s2 = fmupd ?e Raw (mem s1)" "m_head s2 = m_head s1" "m_tail s2 = m_tail s1"
    "free_list s2 = free_list s1" "fresh s2 = fresh s1" "limit s2 = limit s1"
    "trace s2 = trace s1 @ [Destroy ?e]"
    by (rule destroy_ok)
  have "fmlookup (mem s2) ?e = Some Raw" by (simp add: s2)
  then obtain s3 where s3: "deallocate s2 (Some ?e) = Return () s3"
    "mem s3 = fmdrop ?e (mem s2)" "m_head s3 = m_head s2" "m_tail s3 = m_tail s2"
    "free_list s3 = ?e # free_list s2" "fresh s3 = fresh s2" "limit s3 = limit s2"
    "trace s3 = trace s2 @ [Deallocate ?e]"
    by (rule deallocate_ok)
  have m3: "mem s3 = fmdrop ?e (mem s1)"
    by (rule fmap_ext) (simp add: s3 s2)
  from nd have ein: "?e \<in> fmdom' (mem s1)" by (rule in_dom_node)
  from ai have "alloc_ok (mem s1) (free_list s1) (fresh s1) (trace s1)"
    by (simp add: alloc_inv_def)
  then have "alloc_ok (mem s1) (free_list s1) (fresh s1) (trace s1 @ [Destroy ?e])"
    by (rule alloc_ok_event) simp
  from alloc_ok_free [OF this ein] have a3: "alloc_inv s3"
    by (simp add: alloc_inv_def m3 s3 s2)
  from dom have "fmdom' (mem s3) = {}" unfolding m3 by simp
  then have e3: "mem s3 = fmempty"
    by (metis fmrestrict_set_dom fmrestrict_set_null)
  from s1(1) have d: "destructor s =
      and_then (destroy s1 (m_head s1)) (\<lambda>_ s2. deallocate s2 (m_tail s2))"
    by (simp add: destructor_def)
  from s2(1) s3(1) h tl have "destructor s = Return () s3"
    unfolding d by (simp add: s2)
  moreover have "trace s3 = trace s1 @ [Destroy ?e, Deallocate ?e]" by (simp add: s3 s2)
  moreover from s2(1) h have "destroy s1 (m_head s1) = Return () s2" by simp
  moreover from s3(1) tl have "deallocate s2 (m_tail s2) = Return () s3" by (simp add: s2)
  moreover have "m_tail s2 = m_tail s1" by (rule s2)
  moreover from hh have "m_head s = m_head s1" by simp
  ultimately show ?thesis using s1 e3 a3 by blast
qed

section \<open>Sequences of calls\<close>

lemma pushes_ok:
  assumes "queue_inv s t r" and "length vs \<le> room s"
  shows "\<exists>as s'. pushes s vs = Return () s' \<and> length as = length vs \<and>
           queue_inv s' t (r @ zip as vs) \<and> limit s' = limit s"
  using assms
proof (induction vs arbitrary: s r)
  case Nil
  then show ?case by simp
next
  case (Cons v vs)
  from Cons.prems have "0 < room s" by simp
  from push_impl_ok [OF Cons.prems(1) this, of v] obtain a s1 where s1:
    "push_impl s v = Return () s1" "queue_inv s1 t (r @ [(a, v)])" "limit s1 = limit s"
    "Suc (room s1) = room s"
    by blast
  from Cons.prems s1(4) have "length vs \<le> room s1" by simp
  from Cons.IH [OF s1(2) this] obtain as s' where s':
    "pushes s1 vs = Return () s'" "length as = length vs"
    "queue_inv s' t ((r @ [(a, v)]) @ zip as vs)" "limit s' = limit s1"
    by blast
  from s1(1) s'(1) have "pushes s (v # vs) = Return () s'" by (simp add: push_def)
  moreover from s'(2) have "length (a # as) = length (v # vs)" by simp
  moreover from s'(3) have "queue_inv s' t (r @ zip (a # as) (v # vs))" by simp
  moreover from s'(4) s1(3) have "limit s' = limit s" by simp
  ultimately show ?case by blast
qed

lemma pulls_ok:
  assumes "queue_inv s t r"
  shows "\<exists>s'. pulls (length r) s = Return (map (\<lambda>x. Some (snd x)) r) s' \<and>
           queue_inv s' (last (t # map fst r)) []"
  using assms
proof (induction r arbitrary: s t)
  case Nil
  then show ?case by simp
next
  case (Cons x r)
  obtain b v where x: "x = (b, v)" by (cases x)
  from Cons.prems have inv: "queue_inv s t ((b, v) # r)" by (simp add: x)
  from pull_ok [OF inv] obtain s1 where s1: "pull s = Return (Some v) s1" "queue_inv s1 b r"
    by blast
  from Cons.IH [OF s1(2)] obtain s' where s':
    "pulls (length r) s1 = Return (map (\<lambda>x. Some (snd x)) r) s'"
    "queue_inv s' (last (b # map fst r)) []"
    by blast
  from s1(1) s'(1) have "pulls (length (x # r)) s = Return (map (\<lambda>x. Some (snd x)) (x # r)) s'"
    by (simp add: x)
  moreover from s'(2) have "queue_inv s' (last (t # map fst (x # r))) []" by (simp add: x)
  ultimately show ?case by blast
qed

lemma drain_ok:
  assumes "queue_inv s t r"
  shows "\<exists>s'. drain s = Return (map snd r) s' \<and> queue_inv s' (last (t # map fst r)) []"
  using assms
proof (induction r arbitrary: s t)
  case Nil
  then show ?case by (subst drain.simps) (simp add: pull_empty)
next
  case (Cons x r)
  obtain b v where x: "x = (b, v)" by (cases x)
  from Cons.prems have inv: "queue_inv s t ((b, v) # r)" by (simp add: x)
  from pull_ok [OF inv] obtain s1 where s1: "pull s = Return (Some v) s1" "queue_inv s1 b r"
    by blast
  from Cons.IH [OF s1(2)] obtain s' where s':
    "drain s1 = Return (map snd r) s'" "queue_inv s' (last (b # map fst r)) []"
    by blast
  from s1(1) s'(1) have "drain s = Return (map snd (x # r)) s'"
    by (subst drain.simps) (simp add: x)
  moreover from s'(2) have "queue_inv s' (last (t # map fst (x # r))) []" by (simp add: x)
  ultimately show ?case by blast
qed

lemma pulls_empty:
  assumes "pull s = Return None s"
  shows "pulls n s = Return (replicate n None) s"
  using assms by (induction n) simp_all

lemma drained_pull:
  assumes "drained s"
  shows "pull s = Return None s"
  using assms by (auto simp: drained_def pull_def split: option.splits)

lemma drained_iff:
  assumes "queue_inv s t r"
  shows "drained s \<longleftrightarrow> r = []"
  using assms by (cases r) (auto simp: drained_def queue_inv_def split: option.splits)

lemma reachable_inv:
  assumes "reachable s"
  shows "\<exists>t r. queue_inv s t r"
  using assms
proof (induction rule: reachable.induct)
  case (constructed cap dflt s)
  from mpsc_queue_Return [OF this] show ?case by blast
next
  case (pushed s v s')
  then obtain t r where inv: "queue_inv s t r" by blast
  show ?case
  proof (cases "0 < room s")
    case True
    from push_impl_ok [OF inv True, of v] pushed(2) show ?thesis by (auto simp: push_def)
  next
    case False
    with inv have "push_impl s v = Bad_alloc (log Alloc_failed s)"
      by (intro push_impl_fail) (simp_all add: queue_inv_def)
    with pushed(2) show ?thesis by (simp add: push_def)
  qed
next
  case (push_failed s v s')
  then obtain t r where inv: "queue_inv s t r" by blast
  show ?case
  proof (cases "0 < room s")
    case True
    from push_impl_ok [OF inv True, of v] push_failed(2) show ?thesis by (auto simp: push_def)
  next
    case False
    with inv have "push_impl s v = Bad_alloc (log Alloc_failed s)"
      by (intro push_impl_fail) (simp_all add: queue_inv_def)
    with push_failed(2) have "s' = log Alloc_failed s" by (simp add: push_def)
    with queue_inv_log_failed [OF inv] show ?thesis by blast
  qed
next
  case (pulled s x s')
  then obtain t r where inv: "queue_inv s t r" by blast
  show ?case
  proof (cases r)
    case Nil
    with inv pulled(2) pull_empty [of s t] show ?thesis by auto
  next
    case (Cons y r')
    obtain b v where y: "y = (b, v)" by (cases y)
    from inv Cons y have "queue_inv s t ((b, v) # r')" by simp
    from pull_ok [OF this] pulled(2) show ?thesis by auto
  qed
next
  case (cleared s s')
  then obtain t r where inv: "queue_inv s t r" by blast
  from clear_ok [OF inv] cleared(2) show ?case by auto
qed

section \<open>Evaluating the examples\<close>

lemmas op_defs = mpsc_queue_def push_def push_impl_def pull_def clear_def clear_body_def
  destructor_def allocate_def construct_def destroy_def deallocate_def store_next_def
  exchange_head_def load_node_def blank_def log_def Let_def

lemma reachable_pushes:
  assumes "reachable s" and "pushes s vs = Return () s'"
  shows "reachable s'"
  using assms
proof (induction vs arbitrary: s)
  case Nil
  then show ?case by simp
next
  case (Cons v vs)
  from Cons.prems(2) obtain s1 where s1: "push s v = Return () s1" "pushes s1 vs = Return () s'"
    by (cases "push s v") simp_all
  from Cons.prems(1) s1(1) have "reachable s1" by (rule reachable.pushed)
  from Cons.IH [OF this s1(2)] show ?case .
qed

lemma q_fresh_run: "mpsc_queue 4 0 = Return () q_fresh"
  by (simp add: op_defs q_fresh_def)

lemma q_two_run: "pushes q_fresh [7, 8] = Return () q_two"
  by (simp add: op_defs q_fresh_def q_two_def)

lemma q_fresh_reachable: "reachable q_fresh"
  using q_fresh_run by (rule reachable.constructed)

lemma q_two_reachable: "reachable q_two"
  using q_fresh_reachable q_two_run by (rule reachable_pushes)

lemma q_two_path: "path (mem q_two) 0 [(Suc 0, 7), (Suc (Suc 0), 8)]"
  by (simp add: q_two_def node_at_def)

section \<open>Lemmas on the concurrent system\<close>

subsection \<open>Chains with gaps\<close>

lemma wpath_upd_other: "a \<notin> set (t # map fst r) \<Longrightarrow> wpath (fmupd a c m) t r = wpath m t r"
  by (induction r arbitrary: t) (auto split: option.splits)

lemma wpath_drop_other: "a \<notin> set (t # map fst r) \<Longrightarrow> wpath (fmdrop a m) t r = wpath m t r"
  by (induction r arbitrary: t) (auto split: option.splits)

lemma gaps_upd_other: "a \<notin> set (t # map fst r) \<Longrightarrow> gaps (fmupd a c m) t r = gaps m t r"
  by (induction r arbitrary: t) (auto split: option.splits)

lemma gaps_drop_other: "a \<notin> set (t # map fst r) \<Longrightarrow> gaps (fmdrop a m) t r = gaps m t r"
  by (induction r arbitrary: t) (auto split: option.splits)

lemma wpath_last:
  "wpath m t r \<Longrightarrow> \<exists>nd. node_at m (last (t # map fst r)) = Some nd \<and> next_ptr nd = None"
  by (induction r arbitrary: t) (auto split: option.splits)

lemma wpath_snoc:
  assumes "wpath m t r" and "node_at m a = Some \<lparr>data = v, next_ptr = None\<rparr>"
  shows "wpath m t (r @ [(a, v)])"
  using assms by (induction r arbitrary: t) (auto split: option.splits)

lemma gaps_snoc:
  assumes "wpath m t r"
  shows "gaps m t (r @ [(a, v)]) = gaps m t r @ [(last (t # map fst r), a)]"
  using assms by (induction r arbitrary: t) (auto split: option.splits)

lemma in_gaps:
  assumes "(a, b) \<in> set (gaps m t r)"
  shows "a \<in> set (t # map fst r) \<and> (\<exists>nd. node_at m a = Some nd \<and> next_ptr nd = None)"
  using assms
proof (induction r arbitrary: t)
  case Nil
  then show ?case by simp
next
  case (Cons x r)
  show ?case
  proof (cases "(a, b) \<in> set (gaps m (fst x) r)")
    case True
    from Cons.IH [OF this] show ?thesis by auto
  next
    case False
    show ?thesis
    proof (cases "node_at m t")
      case None
      with Cons.prems False show ?thesis by simp
    next
      case (Some nd)
      with Cons.prems False show ?thesis by (simp split: if_splits)
    qed
  qed
qed

lemma wpath_fill:
  assumes "wpath m t r" and "distinct (t # map fst r)" and "(a, b) \<in> set (gaps m t r)"
    and "node_at m a = Some nd"
  shows "wpath (fmupd a (Obj (nd\<lparr>next_ptr := Some b\<rparr>)) m) t r"
  using assms
proof (induction r arbitrary: t)
  case Nil
  then show ?case by simp
next
  case (Cons x r)
  show ?case
  proof (cases "a = t")
    case True
    with Cons.prems(2) have "t \<notin> set (fst x # map fst r)" by simp
    with in_gaps [of t b m "fst x" r] True Cons.prems(3)
    have b: "b = fst x" by (auto split: option.splits if_splits)
    from \<open>t \<notin> set (fst x # map fst r)\<close> have "wpath (fmupd t (Obj (nd\<lparr>next_ptr := Some b\<rparr>)) m) (fst x) r = wpath m (fst x) r"
      by (rule wpath_upd_other)
    with Cons.prems True b show ?thesis by (auto split: option.splits)
  next
    case False
    with Cons.prems(3) have g: "(a, b) \<in> set (gaps m (fst x) r)"
      by (auto split: option.splits if_splits)
    from Cons.prems have "wpath m (fst x) r" "distinct (fst x # map fst r)"
      by (auto split: option.splits)
    from Cons.IH [OF this g Cons.prems(4)] Cons.prems False show ?thesis
      by (auto split: option.splits)
  qed
qed

lemma gaps_fill:
  assumes "distinct (t # map fst r)" and "(a, b) \<in> set (gaps m t r)"
    and "node_at m a = Some nd"
  shows "gaps (fmupd a (Obj (nd\<lparr>next_ptr := Some b\<rparr>)) m) t r = remove1 (a, b) (gaps m t r)"
  using assms
proof (induction r arbitrary: t)
  case Nil
  then show ?case by simp
next
  case (Cons x r)
  let ?m = "fmupd a (Obj (nd\<lparr>next_ptr := Some b\<rparr>)) m"
  show ?case
  proof (cases "a = t")
    case True
    with Cons.prems(1) have nin: "t \<notin> set (fst x # map fst r)" by simp
    with in_gaps [of t b m "fst x" r] True Cons.prems(2)
    have b: "b = fst x" and n: "next_ptr nd = None"
      using Cons.prems(3) by (auto split: option.splits if_splits)
    from nin have "gaps (fmupd t (Obj (nd\<lparr>next_ptr := Some b\<rparr>)) m) (fst x) r = gaps m (fst x) r"
      by (rule gaps_upd_other)
    with Cons.prems(3) True b n show ?thesis by simp
  next
    case False
    with Cons.prems(2) have g: "(a, b) \<in> set (gaps m (fst x) r)"
      by (auto split: option.splits if_splits)
    from Cons.prems have "distinct (fst x # map fst r)" by simp
    from Cons.IH [OF this g Cons.prems(3)] False show ?thesis
      by (auto split: option.splits)
  qed
qed

lemma wpath_path:
  assumes "wpath m t r" and "gaps m t r = []"
  shows "path m t r"
  using assms by (induction r arbitrary: t) (auto split: option.splits if_splits)

subsection \<open>Who holds which cell\<close>

lemma owned_live:
  assumes "A + B + C = mset_set (fmdom' m)"
  shows "x \<in># A \<Longrightarrow> x \<in> fmdom' m" and "x \<in># B \<Longrightarrow> x \<in> fmdom' m"
    and "x \<in># C \<Longrightarrow> x \<in> fmdom' m"
proof -
  have "x \<in># A + B + C \<Longrightarrow> x \<in> fmdom' m" unfolding assms by simp
  then show "x \<in># A \<Longrightarrow> x \<in> fmdom' m" and "x \<in># B \<Longrightarrow> x \<in> fmdom' m"
    and "x \<in># C \<Longrightarrow> x \<in> fmdom' m"
    by simp_all
qed

lemma owned_apart:
  assumes "A + B + C = mset_set D"
  shows "x \<in># A \<Longrightarrow> x \<notin># B \<and> x \<notin># C" and "x \<in># B \<Longrightarrow> x \<notin># A \<and> x \<notin># C"
    and "x \<in># C \<Longrightarrow> x \<notin># A \<and> x \<notin># B"
proof -
  have "count (mset_set D) x \<le> 1" by (simp add: count_mset_set')
  with assms have le: "count A x + count B x + count C x \<le> 1"
    by (metis count_union)
  show "x \<in># A \<Longrightarrow> x \<notin># B \<and> x \<notin># C"
  proof -
    assume "x \<in># A"
    then have "count A x \<noteq> 0" by (simp add: count_eq_zero_iff)
    with le have "count B x = 0 \<and> count C x = 0" by arith
    then show ?thesis by (simp add: count_eq_zero_iff)
  qed
  show "x \<in># B \<Longrightarrow> x \<notin># A \<and> x \<notin># C"
  proof -
    assume "x \<in># B"
    then have "count B x \<noteq> 0" by (simp add: count_eq_zero_iff)
    with le have "count A x = 0 \<and> count C x = 0" by arith
    then show ?thesis by (simp add: count_eq_zero_iff)
  qed
  show "x \<in># C \<Longrightarrow> x \<notin># A \<and> x \<notin># B"
  proof -
    assume "x \<in># C"
    then have "count C x \<noteq> 0" by (simp add: count_eq_zero_iff)
    with le have "count A x = 0 \<and> count B x = 0" by arith
    then show ?thesis by (simp add: count_eq_zero_iff)
  qed
qed

lemma notin_sum_pcell:
  assumes "x \<notin># sum_mset (image_mset pcell M)" and "q \<in># M"
  shows "x \<notin># pcell q"
  using assms by (induction M) auto

lemma pok_upd: "x \<notin># pcell p \<Longrightarrow> pok (fmupd x c m) p = pok m p"
  by (auto simp: pok_def pcell_def split: producer_pc.splits option.splits)

lemma pok_drop: "x \<notin># pcell p \<Longrightarrow> pok (fmdrop x m) p = pok m p"
  by (auto simp: pok_def pcell_def split: producer_pc.splits option.splits)

lemma cok_upd:
  assumes "cok m t r pc" and "x \<notin># ccell pc"
    and "x = t \<Longrightarrow> map_option next_ptr (node_at m t) = Some None"
  shows "cok (fmupd x c m) t r pc"
  using assms
  by (cases pc) (auto simp: cok_def ccell_def split: option.splits list.splits)

lemma quiet_sums:
  assumes "\<forall>p. p \<in># M \<longrightarrow> ppc p = P_idle \<and> todo p = []"
  shows "sum_mset (image_mset pcell M) = {#} \<and> sum_mset (image_mset pending M) = {#} \<and>
         sum_mset (image_mset inflight M) = {#}"
  using assms
proof (induction M)
  case empty
  then show ?case by simp
next
  case (add x M)
  from add.prems have x: "ppc x = P_idle" "todo x = []" and
    M: "\<forall>p. p \<in># M \<longrightarrow> ppc p = P_idle \<and> todo p = []"
    by simp_all
  from x have "pcell x = {#}" "pending x = {#}" "inflight x = {#}"
    by (simp_all add: pcell_def pending_def inflight_def)
  with add.IH [OF M] show ?case by simp
qed

lemma start_sums:
  "sum_mset (image_mset pcell (mset (map (\<lambda>vs. \<lparr>todo = vs, ppc = P_idle\<rparr>) vss))) = {#} \<and>
   sum_mset (image_mset pending (mset (map (\<lambda>vs. \<lparr>todo = vs, ppc = P_idle\<rparr>) vss))) = {#} \<and>
   sum_mset (image_mset inflight (mset (map (\<lambda>vs. \<lparr>todo = vs, ppc = P_idle\<rparr>) vss))) =
     mset (concat vss)"
  by (induction vss) (auto simp: pcell_def pending_def inflight_def)

subsection \<open>Every access preserves the invariant\<close>

lemma cinvI:
  assumes "alloc_inv (shared c)" and "m_tail (shared c) = Some t"
    and "wpath (mem (shared c)) t r" and "distinct (t # map fst r)"
    and "m_head (shared c) = Some (last (t # map fst r))"
    and "mset (t # map fst r) + sum_mset (image_mset pcell (producers c)) + ccell (cpc c) =
         mset_set (fmdom' (mem (shared c)))"
    and "\<forall>p. p \<in># producers c \<longrightarrow> pok (mem (shared c)) p"
    and "sum_mset (image_mset pending (producers c)) = mset (gaps (mem (shared c)) t r)"
    and "cok (mem (shared c)) t r (cpc c)"
    and "mset (received c) + cheld (cpc c) + mset (map snd r) +
         sum_mset (image_mset inflight (producers c)) = vals"
  shows "cinv vals c t r"
  using assms by (simp add: cinv_def)

lemma pcell_in_sum:
  assumes "q \<in># M" and "x \<in># pcell q"
  shows "x \<in># sum_mset (image_mset pcell M)"
  using assms by (induction M) auto

lemma frame_upd:
  assumes "x \<notin> set (t # map fst r)" and "x \<notin># sum_mset (image_mset pcell M)"
    and "\<forall>q. q \<in># M \<longrightarrow> pok m q"
  shows "wpath (fmupd x c m) t r = wpath m t r" and "gaps (fmupd x c m) t r = gaps m t r"
    and "\<forall>q. q \<in># M \<longrightarrow> pok (fmupd x c m) q"
proof -
  from assms(1) show "wpath (fmupd x c m) t r = wpath m t r" by (rule wpath_upd_other)
  from assms(1) show "gaps (fmupd x c m) t r = gaps m t r" by (rule gaps_upd_other)
  show "\<forall>q. q \<in># M \<longrightarrow> pok (fmupd x c m) q"
  proof (intro allI impI)
    fix q assume q: "q \<in># M"
    with assms(2) have "x \<notin># pcell q" by (rule notin_sum_pcell)
    then have "pok (fmupd x c m) q = pok m q" by (rule pok_upd)
    with assms(3) q show "pok (fmupd x c m) q" by simp
  qed
qed

lemma frame_drop:
  assumes "x \<notin> set (t # map fst r)" and "x \<notin># sum_mset (image_mset pcell M)"
    and "\<forall>q. q \<in># M \<longrightarrow> pok m q"
  shows "wpath (fmdrop x m) t r = wpath m t r" and "gaps (fmdrop x m) t r = gaps m t r"
    and "\<forall>q. q \<in># M \<longrightarrow> pok (fmdrop x m) q"
proof -
  from assms(1) show "wpath (fmdrop x m) t r = wpath m t r" by (rule wpath_drop_other)
  from assms(1) show "gaps (fmdrop x m) t r = gaps m t r" by (rule gaps_drop_other)
  show "\<forall>q. q \<in># M \<longrightarrow> pok (fmdrop x m) q"
  proof (intro allI impI)
    fix q assume q: "q \<in># M"
    with assms(2) have "x \<notin># pcell q" by (rule notin_sum_pcell)
    then have "pok (fmdrop x m) q = pok m q" by (rule pok_drop)
    with assms(3) q show "pok (fmdrop x m) q" by simp
  qed
qed

lemma cok_snoc: "cok m t r pc \<Longrightarrow> cok m t (r @ ys) pc"
  by (cases pc) (auto simp: cok_def split: list.splits)

text \<open>A producer between pushes takes its next value and allocates a node.\<close>

lemma produce_idle:
  assumes inv: "cinv vals c t r" and ps: "producers c = add_mset p M"
    and pc: "ppc p = P_idle" and td: "todo p = v # vs"
  shows "\<exists>p' s'. producer_step (shared c) p = Some (Return p' s') \<and>
           cinv vals (c\<lparr>shared := s', producers := add_mset p' M\<rparr>) t r"
proof -
  let ?s = "shared c" and ?m = "mem (shared c)"
  let ?P = "sum_mset (image_mset pcell M)"
  from inv ps have ai: "alloc_inv ?s" and tl: "m_tail ?s = Some t" and wp: "wpath ?m t r"
    and di: "distinct (t # map fst r)" and hd: "m_head ?s = Some (last (t # map fst r))"
    and own: "mset (t # map fst r) + (pcell p + ?P) + ccell (cpc c) = mset_set (fmdom' ?m)"
    and pk: "\<forall>q. q \<in># M \<longrightarrow> pok ?m q"
    and pe: "pending p + sum_mset (image_mset pending M) = mset (gaps ?m t r)"
    and ck: "cok ?m t r (cpc c)"
    and cs: "mset (received c) + cheld (cpc c) + mset (map snd r) +
             (inflight p + sum_mset (image_mset inflight M)) = vals"
    by (simp_all add: cinv_def)
  from pc have p0: "pcell p = {#}" "pending p = {#}" by (simp_all add: pcell_def pending_def)
  from pc td have i0: "inflight p = add_mset v (mset vs)" by (simp add: inflight_def)
  from ai show ?thesis
  proof (cases rule: allocate_cases)
    case (ok a s1)
    let ?p' = "p\<lparr>todo := vs, ppc := P_allocated (Some a) v\<rparr>"
    let ?c' = "c\<lparr>shared := s1, producers := add_mset ?p' M\<rparr>"
    from ok(1) pc td have run: "producer_step ?s p = Some (Return ?p' s1)"
      by (simp add: producer_step_def)
    from own p0 have e: "mset (t # map fst r) + ?P + ccell (cpc c) = mset_set (fmdom' ?m)"
      by simp
    from ok(2) owned_live(1) [OF e, of a] have nc: "a \<notin> set (t # map fst r)"
      by (metis set_mset_mset)
    from ok(2) owned_live(2) [OF e, of a] have np: "a \<notin># ?P" by metis
    from ok(2) owned_live(3) [OF e, of a] have ncc: "a \<notin># ccell (cpc c)" by metis
    from nc have nt: "a \<noteq> t" by simp
    have p1: "pcell ?p' = {#a#}" "pending ?p' = {#}" "inflight ?p' = add_mset v (mset vs)"
      by (simp_all add: pcell_def pending_def inflight_def)
    have "cinv vals ?c' t r"
    proof (rule cinvI)
      show "alloc_inv (shared ?c')" using ok(8) by simp
      show "m_tail (shared ?c') = Some t" using ok(5) tl by simp
      show "wpath (mem (shared ?c')) t r" using wp frame_upd(1) [OF nc np pk] by (simp add: ok(3))
      show "distinct (t # map fst r)" by (rule di)
      show "m_head (shared ?c') = Some (last (t # map fst r))" using ok(4) hd by simp
      show "mset (t # map fst r) + sum_mset (image_mset pcell (producers ?c')) + ccell (cpc ?c') =
            mset_set (fmdom' (mem (shared ?c')))"
        using own ok(2) p0 p1 by (simp add: ok(3))
      show "\<forall>q. q \<in># producers ?c' \<longrightarrow> pok (mem (shared ?c')) q"
        using frame_upd(3) [OF nc np pk] by (auto simp: ok(3) pok_def)
      show "sum_mset (image_mset pending (producers ?c')) = mset (gaps (mem (shared ?c')) t r)"
        using pe p0 p1 frame_upd(2) [OF nc np pk] by (simp add: ok(3))
      show "cok (mem (shared ?c')) t r (cpc ?c')"
        using cok_upd [OF ck ncc] nt by (simp add: ok(3))
      show "mset (received ?c') + cheld (cpc ?c') + mset (map snd r) +
            sum_mset (image_mset inflight (producers ?c')) = vals"
        using cs i0 p1 by simp
    qed
    with run show ?thesis by blast
  next
    case fail
    let ?p' = "p\<lparr>ppc := P_failed\<rparr>"
    let ?s1 = "log Alloc_failed ?s"
    let ?c' = "c\<lparr>shared := ?s1, producers := add_mset ?p' M\<rparr>"
    from fail(1) pc td have run: "producer_step ?s p = Some (Return ?p' ?s1)"
      by (simp add: producer_step_def)
    have p1: "pcell ?p' = {#}" "pending ?p' = {#}" "inflight ?p' = add_mset v (mset vs)"
      using td by (simp_all add: pcell_def pending_def inflight_def)
    from ai have "alloc_ok ?m (free_list ?s) (fresh ?s) (trace ?s)" by (simp add: alloc_inv_def)
    then have "alloc_ok ?m (free_list ?s) (fresh ?s) (trace ?s @ [Alloc_failed])"
      by (rule alloc_ok_event) simp
    then have ai': "alloc_inv ?s1" by (simp add: alloc_inv_def)
    have "cinv vals ?c' t r"
    proof (rule cinvI)
      show "alloc_inv (shared ?c')" using ai' by simp
      show "m_tail (shared ?c') = Some t" using tl by simp
      show "wpath (mem (shared ?c')) t r" using wp by simp
      show "distinct (t # map fst r)" by (rule di)
      show "m_head (shared ?c') = Some (last (t # map fst r))" using hd by simp
      show "mset (t # map fst r) + sum_mset (image_mset pcell (producers ?c')) + ccell (cpc ?c') =
            mset_set (fmdom' (mem (shared ?c')))"
        using own p0 p1 by simp
      show "\<forall>q. q \<in># producers ?c' \<longrightarrow> pok (mem (shared ?c')) q"
        using pk by (auto simp: pok_def)
      show "sum_mset (image_mset pending (producers ?c')) = mset (gaps (mem (shared ?c')) t r)"
        using pe p0 p1 by simp
      show "cok (mem (shared ?c')) t r (cpc ?c')" using ck by simp
      show "mset (received ?c') + cheld (cpc ?c') + mset (map snd r) +
            sum_mset (image_mset inflight (producers ?c')) = vals"
        using cs i0 p1 by simp
    qed
    with run show ?thesis by blast
  qed
qed

text \<open>A producer constructs the node it has allocated.\<close>

lemma produce_allocated:
  assumes inv: "cinv vals c t r" and ps: "producers c = add_mset p M"
    and pc: "ppc p = P_allocated q v"
  shows "\<exists>p' s'. producer_step (shared c) p = Some (Return p' s') \<and>
           cinv vals (c\<lparr>shared := s', producers := add_mset p' M\<rparr>) t r"
proof -
  let ?s = "shared c" and ?m = "mem (shared c)"
  let ?P = "sum_mset (image_mset pcell M)"
  from inv ps have ai: "alloc_inv ?s" and tl: "m_tail ?s = Some t" and wp: "wpath ?m t r"
    and di: "distinct (t # map fst r)" and hd: "m_head ?s = Some (last (t # map fst r))"
    and own: "mset (t # map fst r) + (pcell p + ?P) + ccell (cpc c) = mset_set (fmdom' ?m)"
    and pp: "pok ?m p" and pk: "\<forall>q. q \<in># M \<longrightarrow> pok ?m q"
    and pe: "pending p + sum_mset (image_mset pending M) = mset (gaps ?m t r)"
    and ck: "cok ?m t r (cpc c)"
    and cs: "mset (received c) + cheld (cpc c) + mset (map snd r) +
             (inflight p + sum_mset (image_mset inflight M)) = vals"
    by (simp_all add: cinv_def)
  from pp pc obtain a where q: "q = Some a" and raw: "fmlookup ?m a = Some Raw"
    by (auto simp: pok_def split: option.splits)
  from pc q have p0: "pcell p = {#a#}" "pending p = {#}"
    "inflight p = add_mset v (mset (todo p))"
    by (simp_all add: pcell_def pending_def inflight_def)
  from own p0 have e: "{#a#} + (mset (t # map fst r) + ?P) + ccell (cpc c) =
      mset_set (fmdom' ?m)"
    by (simp add: ac_simps)
  from owned_apart(1) [OF e, of a] have nc: "a \<notin> set (t # map fst r)" and np: "a \<notin># ?P"
    and ncc: "a \<notin># ccell (cpc c)"
    by simp_all
  from nc have nt: "a \<noteq> t" by simp
  from raw have ain: "a \<in> fmdom' ?m" by (rule fmdom'I)
  let ?nd = "\<lparr>data = v, next_ptr = None\<rparr>"
  from raw obtain s1 where s1: "construct ?s (Some a) ?nd = Return () s1"
    "mem s1 = fmupd a (Obj ?nd) ?m" "m_head s1 = m_head ?s" "m_tail s1 = m_tail ?s"
    "free_list s1 = free_list ?s" "fresh s1 = fresh ?s" "limit s1 = limit ?s"
    "trace s1 = trace ?s @ [Construct a]"
    by (rule construct_ok)
  let ?p' = "p\<lparr>ppc := P_constructed (Some a) v\<rparr>"
  let ?c' = "c\<lparr>shared := s1, producers := add_mset ?p' M\<rparr>"
  from s1(1) pc q have run: "producer_step ?s p = Some (Return ?p' s1)"
    by (simp add: producer_step_def)
  have p1: "pcell ?p' = {#a#}" "pending ?p' = {#}" "inflight ?p' = add_mset v (mset (todo p))"
    by (simp_all add: pcell_def pending_def inflight_def)
  from ai have "alloc_ok ?m (free_list ?s) (fresh ?s) (trace ?s)" by (simp add: alloc_inv_def)
  then have "alloc_ok (fmupd a (Obj ?nd) ?m) (free_list ?s) (fresh ?s) (trace ?s)"
    using ain by (rule alloc_ok_upd)
  then have "alloc_ok (fmupd a (Obj ?nd) ?m) (free_list ?s) (fresh ?s) (trace ?s @ [Construct a])"
    by (rule alloc_ok_event) simp
  then have ai': "alloc_inv s1" by (simp add: alloc_inv_def s1)
  from ain have dom: "fmdom' (mem s1) = fmdom' ?m" by (auto simp: s1)
  have "cinv vals ?c' t r"
  proof (rule cinvI)
    show "alloc_inv (shared ?c')" using ai' by simp
    show "m_tail (shared ?c') = Some t" using s1(4) tl by simp
    show "wpath (mem (shared ?c')) t r" using wp frame_upd(1) [OF nc np pk] by (simp add: s1(2))
    show "distinct (t # map fst r)" by (rule di)
    show "m_head (shared ?c') = Some (last (t # map fst r))" using s1(3) hd by simp
    show "mset (t # map fst r) + sum_mset (image_mset pcell (producers ?c')) + ccell (cpc ?c') =
          mset_set (fmdom' (mem (shared ?c')))"
      using own p0 p1 dom by simp
    show "\<forall>q. q \<in># producers ?c' \<longrightarrow> pok (mem (shared ?c')) q"
      using frame_upd(3) [OF nc np pk] by (auto simp: s1(2) pok_def)
    show "sum_mset (image_mset pending (producers ?c')) = mset (gaps (mem (shared ?c')) t r)"
      using pe p0 p1 frame_upd(2) [OF nc np pk] by (simp add: s1(2))
    show "cok (mem (shared ?c')) t r (cpc ?c')"
      using cok_upd [OF ck ncc] nt by (simp add: s1(2))
    show "mset (received ?c') + cheld (cpc ?c') + mset (map snd r) +
          sum_mset (image_mset inflight (producers ?c')) = vals"
      using cs p0 p1 by simp
  qed
  with run show ?thesis by blast
qed

text \<open>A producer exchanges the head for its node: the node joins the chain, with a gap
  before it.\<close>

lemma produce_constructed:
  assumes inv: "cinv vals c t r" and ps: "producers c = add_mset p M"
    and pc: "ppc p = P_constructed q v"
  shows "\<exists>p' s' a. producer_step (shared c) p = Some (Return p' s') \<and>
           cinv vals (c\<lparr>shared := s', producers := add_mset p' M\<rparr>) t (r @ [(a, v)])"
proof -
  let ?s = "shared c" and ?m = "mem (shared c)"
  let ?P = "sum_mset (image_mset pcell M)"
  let ?e = "last (t # map fst r)"
  from inv ps have ai: "alloc_inv ?s" and tl: "m_tail ?s = Some t" and wp: "wpath ?m t r"
    and di: "distinct (t # map fst r)" and hd: "m_head ?s = Some ?e"
    and own: "mset (t # map fst r) + (pcell p + ?P) + ccell (cpc c) = mset_set (fmdom' ?m)"
    and pp: "pok ?m p" and pk: "\<forall>q. q \<in># M \<longrightarrow> pok ?m q"
    and pe: "pending p + sum_mset (image_mset pending M) = mset (gaps ?m t r)"
    and ck: "cok ?m t r (cpc c)"
    and cs: "mset (received c) + cheld (cpc c) + mset (map snd r) +
             (inflight p + sum_mset (image_mset inflight M)) = vals"
    by (simp_all add: cinv_def)
  from pp pc obtain a where q: "q = Some a"
    and nd: "node_at ?m a = Some \<lparr>data = v, next_ptr = None\<rparr>"
    by (auto simp: pok_def split: option.splits)
  from pc q have p0: "pcell p = {#a#}" "pending p = {#}"
    "inflight p = add_mset v (mset (todo p))"
    by (simp_all add: pcell_def pending_def inflight_def)
  from own p0 have e: "{#a#} + (mset (t # map fst r) + ?P) + ccell (cpc c) =
      mset_set (fmdom' ?m)"
    by (simp add: ac_simps)
  from owned_apart(1) [OF e, of a] have nc: "a \<notin> set (t # map fst r)" by simp
  let ?s1 = "?s\<lparr>m_head := Some a\<rparr>"
  let ?p' = "p\<lparr>ppc := P_exchanged (Some ?e) (Some a) v\<rparr>"
  let ?c' = "c\<lparr>shared := ?s1, producers := add_mset ?p' M\<rparr>"
  let ?r' = "r @ [(a, v)]"
  from pc q hd have run: "producer_step ?s p = Some (Return ?p' ?s1)"
    by (simp add: producer_step_def exchange_head_def)
  have p1: "pcell ?p' = {#}" "pending ?p' = {#(?e, a)#}" "inflight ?p' = mset (todo p)"
    by (simp_all add: pcell_def pending_def inflight_def)
  have "cinv vals ?c' t ?r'"
  proof (rule cinvI)
    show "alloc_inv (shared ?c')" using ai by (simp add: alloc_inv_def)
    show "m_tail (shared ?c') = Some t" using tl by simp
    show "wpath (mem (shared ?c')) t ?r'" using wpath_snoc [OF wp nd] by simp
    show "distinct (t # map fst ?r')" using di nc by auto
    show "m_head (shared ?c') = Some (last (t # map fst ?r'))" by simp
    show "mset (t # map fst ?r') + sum_mset (image_mset pcell (producers ?c')) + ccell (cpc ?c') =
          mset_set (fmdom' (mem (shared ?c')))"
      using own p0 p1 by (simp add: add_mset_commute)
    show "\<forall>q. q \<in># producers ?c' \<longrightarrow> pok (mem (shared ?c')) q"
      using pk by (auto simp: pok_def)
    show "sum_mset (image_mset pending (producers ?c')) = mset (gaps (mem (shared ?c')) t ?r')"
      using pe p0 p1 gaps_snoc [OF wp, of a v] by simp
    show "cok (mem (shared ?c')) t ?r' (cpc ?c')" using cok_snoc [OF ck] by simp
    show "mset (received ?c') + cheld (cpc ?c') + mset (map snd ?r') +
          sum_mset (image_mset inflight (producers ?c')) = vals"
      using cs p0 p1 by simp
  qed
  with run show ?thesis by blast
qed

text \<open>A producer stores the link to its node: the gap before the node closes.\<close>

lemma produce_exchanged:
  assumes inv: "cinv vals c t r" and ps: "producers c = add_mset p M"
    and pc: "ppc p = P_exchanged q q' v"
  shows "\<exists>p' s'. producer_step (shared c) p = Some (Return p' s') \<and>
           cinv vals (c\<lparr>shared := s', producers := add_mset p' M\<rparr>) t r"
proof -
  let ?s = "shared c" and ?m = "mem (shared c)"
  let ?P = "sum_mset (image_mset pcell M)"
  from inv ps have ai: "alloc_inv ?s" and tl: "m_tail ?s = Some t" and wp: "wpath ?m t r"
    and di: "distinct (t # map fst r)" and hd: "m_head ?s = Some (last (t # map fst r))"
    and own: "mset (t # map fst r) + (pcell p + ?P) + ccell (cpc c) = mset_set (fmdom' ?m)"
    and pp: "pok ?m p" and pk: "\<forall>q. q \<in># M \<longrightarrow> pok ?m q"
    and pe: "pending p + sum_mset (image_mset pending M) = mset (gaps ?m t r)"
    and ck: "cok ?m t r (cpc c)"
    and cs: "mset (received c) + cheld (cpc c) + mset (map snd r) +
             (inflight p + sum_mset (image_mset inflight M)) = vals"
    by (simp_all add: cinv_def)
  from pp pc obtain a b where q: "q = Some a" "q' = Some b"
    by (auto simp: pok_def)
  from pc q have p0: "pcell p = {#}" "pending p = {#(a, b)#}" "inflight p = mset (todo p)"
    by (simp_all add: pcell_def pending_def inflight_def)
  from p0 have "(a, b) \<in># pending p + sum_mset (image_mset pending M)" by simp
  then have g: "(a, b) \<in> set (gaps ?m t r)" unfolding pe by simp
  from in_gaps [OF g] obtain nd where ac: "a \<in> set (t # map fst r)"
    and nd: "node_at ?m a = Some nd" "next_ptr nd = None"
    by blast
  from own p0 have e: "mset (t # map fst r) + ?P + ccell (cpc c) = mset_set (fmdom' ?m)"
    by simp
  from ac owned_apart(1) [OF e, of a] have np: "a \<notin># ?P" and ncc: "a \<notin># ccell (cpc c)"
    by simp_all
  from nd(1) have ain: "a \<in> fmdom' ?m" by (rule in_dom_node)
  let ?c = "Obj (nd\<lparr>next_ptr := Some b\<rparr>)"
  from nd(1) obtain s1 where s1: "store_next ?s (Some a) (Some b) = Return () s1"
    "mem s1 = fmupd a ?c ?m" "m_head s1 = m_head ?s" "m_tail s1 = m_tail ?s"
    "free_list s1 = free_list ?s" "fresh s1 = fresh ?s" "limit s1 = limit ?s"
    "trace s1 = trace ?s"
    by (rule store_next_ok)
  let ?p' = "p\<lparr>ppc := P_idle\<rparr>"
  let ?c' = "c\<lparr>shared := s1, producers := add_mset ?p' M\<rparr>"
  from s1(1) pc q have run: "producer_step ?s p = Some (Return ?p' s1)"
    by (simp add: producer_step_def)
  have p1: "pcell ?p' = {#}" "pending ?p' = {#}" "inflight ?p' = mset (todo p)"
    by (simp_all add: pcell_def pending_def inflight_def)
  from ai have "alloc_ok ?m (free_list ?s) (fresh ?s) (trace ?s)" by (simp add: alloc_inv_def)
  then have "alloc_ok (fmupd a ?c ?m) (free_list ?s) (fresh ?s) (trace ?s)"
    using ain by (rule alloc_ok_upd)
  then have ai': "alloc_inv s1" by (simp add: alloc_inv_def s1)
  from ain have dom: "fmdom' (mem s1) = fmdom' ?m" by (auto simp: s1)
  have pk': "\<forall>q. q \<in># M \<longrightarrow> pok (fmupd a ?c ?m) q"
  proof (intro allI impI)
    fix x assume x: "x \<in># M"
    with np have "a \<notin># pcell x" by (rule notin_sum_pcell)
    then have "pok (fmupd a ?c ?m) x = pok ?m x" by (rule pok_upd)
    with pk x show "pok (fmupd a ?c ?m) x" by simp
  qed
  have "cinv vals ?c' t r"
  proof (rule cinvI)
    show "alloc_inv (shared ?c')" using ai' by simp
    show "m_tail (shared ?c') = Some t" using s1(4) tl by simp
    show "wpath (mem (shared ?c')) t r" using wpath_fill [OF wp di g nd(1)] by (simp add: s1(2))
    show "distinct (t # map fst r)" by (rule di)
    show "m_head (shared ?c') = Some (last (t # map fst r))" using s1(3) hd by simp
    show "mset (t # map fst r) + sum_mset (image_mset pcell (producers ?c')) + ccell (cpc ?c') =
          mset_set (fmdom' (mem (shared ?c')))"
      using own p0 p1 dom by simp
    show "\<forall>q. q \<in># producers ?c' \<longrightarrow> pok (mem (shared ?c')) q"
      using pk' by (auto simp: s1(2) pok_def)
    show "sum_mset (image_mset pending (producers ?c')) = mset (gaps (mem (shared ?c')) t r)"
      using pe p0 p1 gaps_fill [OF di g nd(1)] by (simp add: s1(2) flip: pe)
    show "cok (mem (shared ?c')) t r (cpc ?c')"
      using cok_upd [OF ck ncc, of ?c] nd by (auto simp: s1(2))
    show "mset (received ?c') + cheld (cpc ?c') + mset (map snd r) +
          sum_mset (image_mset inflight (producers ?c')) = vals"
      using cs p0 p1 by simp
  qed
  with run show ?thesis by blast
qed

text \<open>The consumer's accesses, one lemma for each program counter.\<close>

lemma consume_idle:
  assumes inv: "cinv vals c t r" and pc: "cpc c = C_idle"
  shows "\<exists>pc' rcv' s'. consumer_step (shared c) (cpc c) (received c) = Return (pc', rcv') s' \<and>
           cinv vals (c\<lparr>shared := s', cpc := pc', received := rcv'\<rparr>) t r"
proof -
  from inv pc have "consumer_step (shared c) (cpc c) (received c) =
      Return (C_tail (Some t), received c) (shared c)"
    by (simp add: consumer_step_def cinv_def)
  moreover from inv pc
  have "cinv vals (c\<lparr>shared := shared c, cpc := C_tail (Some t), received := received c\<rparr>) t r"
    by (simp add: cinv_def cok_def ccell_def cheld_def)
  ultimately show ?thesis by blast
qed

lemma consume_tail:
  assumes inv: "cinv vals c t r" and pc: "cpc c = C_tail q"
  shows "\<exists>pc' rcv' s'. consumer_step (shared c) (cpc c) (received c) = Return (pc', rcv') s' \<and>
           cinv vals (c\<lparr>shared := s', cpc := pc', received := rcv'\<rparr>) t r"
proof -
  let ?m = "mem (shared c)"
  from inv pc have q: "q = Some t" and wp: "wpath ?m t r" by (simp_all add: cinv_def cok_def)
  from wp obtain tn where tn: "node_at ?m t = Some tn"
    by (cases r) (auto split: option.splits)
  show ?thesis
  proof (cases "next_ptr tn")
    case None
    with tn pc q have "consumer_step (shared c) (cpc c) (received c) =
        Return (C_idle, received c) (shared c)"
      by (simp add: consumer_step_def)
    moreover from inv pc
    have "cinv vals (c\<lparr>shared := shared c, cpc := C_idle, received := received c\<rparr>) t r"
      by (simp add: cinv_def cok_def ccell_def cheld_def)
    ultimately show ?thesis by blast
  next
    case (Some nx)
    with tn pc q have run: "consumer_step (shared c) (cpc c) (received c) =
        Return (C_next (Some t) (Some nx), received c) (shared c)"
      by (simp add: consumer_step_def)
    from wp tn Some obtain x r' where r: "r = x # r'" "nx = fst x"
      by (cases r) auto
    with tn Some have "cok ?m t r (C_next (Some t) (Some nx))" by (simp add: cok_def)
    with inv pc
    have "cinv vals (c\<lparr>shared := shared c, cpc := C_next (Some t) (Some nx),
        received := received c\<rparr>) t r"
      by (simp add: cinv_def ccell_def cheld_def)
    with run show ?thesis by blast
  qed
qed

lemma consume_next:
  assumes inv: "cinv vals c t r" and pc: "cpc c = C_next q q'"
  shows "\<exists>pc' rcv' s'. consumer_step (shared c) (cpc c) (received c) = Return (pc', rcv') s' \<and>
           cinv vals (c\<lparr>shared := s', cpc := pc', received := rcv'\<rparr>) t r"
proof -
  let ?m = "mem (shared c)"
  from inv pc have ck: "cok ?m t r (C_next q q')" and wp: "wpath ?m t r"
    by (simp_all add: cinv_def)
  from ck obtain x r' where r: "r = x # r'" and q: "q = Some t" "q' = Some (fst x)"
    and nx: "map_option next_ptr (node_at ?m t) = Some (Some (fst x))"
    by (auto simp: cok_def split: list.splits)
  from wp r obtain nb where nb: "node_at ?m (fst x) = Some nb" "data nb = snd x"
    by (auto split: option.splits)
  from nb pc q have run: "consumer_step (shared c) (cpc c) (received c) =
      Return (C_moved q q' (snd x), received c) (shared c)"
    by (simp add: consumer_step_def)
  from r q nx have "cok ?m t r (C_moved q q' (snd x))" by (simp add: cok_def)
  with inv pc
  have "cinv vals (c\<lparr>shared := shared c, cpc := C_moved q q' (snd x),
      received := received c\<rparr>) t r"
    by (simp add: cinv_def ccell_def cheld_def)
  with run show ?thesis by blast
qed

text \<open>The consumer stores the tail cursor: the old sentinel leaves the chain and is the
  consumer's to give back.\<close>

lemma consume_moved:
  assumes inv: "cinv vals c t r" and pc: "cpc c = C_moved q q' v"
  shows "\<exists>pc' rcv' s' x r'. r = x # r' \<and>
           consumer_step (shared c) (cpc c) (received c) = Return (pc', rcv') s' \<and>
           cinv vals (c\<lparr>shared := s', cpc := pc', received := rcv'\<rparr>) (fst x) r'"
proof -
  let ?s = "shared c" and ?m = "mem (shared c)"
  let ?P = "sum_mset (image_mset pcell (producers c))"
  from inv pc have ai: "alloc_inv ?s" and tl: "m_tail ?s = Some t" and wp: "wpath ?m t r"
    and di: "distinct (t # map fst r)" and hd: "m_head ?s = Some (last (t # map fst r))"
    and own: "mset (t # map fst r) + ?P + ccell (cpc c) = mset_set (fmdom' ?m)"
    and pk: "\<forall>p. p \<in># producers c \<longrightarrow> pok ?m p"
    and pe: "sum_mset (image_mset pending (producers c)) = mset (gaps ?m t r)"
    and ck: "cok ?m t r (C_moved q q' v)"
    and cs: "mset (received c) + cheld (cpc c) + mset (map snd r) +
             sum_mset (image_mset inflight (producers c)) = vals"
    by (simp_all add: cinv_def)
  from ck obtain x r' where r: "r = x # r'" and q: "q = Some t" "q' = Some (fst x)" "v = snd x"
    and nx: "map_option next_ptr (node_at ?m t) = Some (Some (fst x))"
    by (auto simp: cok_def split: list.splits)
  from nx obtain tn where tn: "node_at ?m t = Some tn" "next_ptr tn = Some (fst x)" by auto
  let ?s1 = "?s\<lparr>m_tail := Some (fst x)\<rparr>"
  let ?c' = "c\<lparr>shared := ?s1, cpc := C_stored (Some t) v, received := received c\<rparr>"
  from pc q have run: "consumer_step ?s (cpc c) (received c) =
      Return (C_stored (Some t) v, received c) ?s1"
    by (simp add: consumer_step_def)
  have "cinv vals ?c' (fst x) r'"
  proof (rule cinvI)
    show "alloc_inv (shared ?c')" using ai by (simp add: alloc_inv_def)
    show "m_tail (shared ?c') = Some (fst x)" by simp
    show "wpath (mem (shared ?c')) (fst x) r'" using wp r by (auto split: option.splits)
    show "distinct (fst x # map fst r')" using di r by simp
    show "m_head (shared ?c') = Some (last (fst x # map fst r'))" using hd r by simp
    show "mset (fst x # map fst r') + sum_mset (image_mset pcell (producers ?c')) +
          ccell (cpc ?c') = mset_set (fmdom' (mem (shared ?c')))"
      using own r pc by (simp add: ccell_def add_mset_commute)
    show "\<forall>p. p \<in># producers ?c' \<longrightarrow> pok (mem (shared ?c')) p" using pk by simp
    show "sum_mset (image_mset pending (producers ?c')) =
          mset (gaps (mem (shared ?c')) (fst x) r')"
      using pe r tn by simp
    show "cok (mem (shared ?c')) (fst x) r' (cpc ?c')" using tn by (simp add: cok_def)
    show "mset (received ?c') + cheld (cpc ?c') + mset (map snd r') +
          sum_mset (image_mset inflight (producers ?c')) = vals"
      using cs r pc q by (simp add: cheld_def)
  qed
  with run r show ?thesis by blast
qed

lemma consume_stored:
  assumes inv: "cinv vals c t r" and pc: "cpc c = C_stored q v"
  shows "\<exists>pc' rcv' s'. consumer_step (shared c) (cpc c) (received c) = Return (pc', rcv') s' \<and>
           cinv vals (c\<lparr>shared := s', cpc := pc', received := rcv'\<rparr>) t r"
proof -
  let ?s = "shared c" and ?m = "mem (shared c)"
  let ?P = "sum_mset (image_mset pcell (producers c))"
  from inv pc have ai: "alloc_inv ?s" and tl: "m_tail ?s = Some t" and wp: "wpath ?m t r"
    and di: "distinct (t # map fst r)" and hd: "m_head ?s = Some (last (t # map fst r))"
    and own: "mset (t # map fst r) + ?P + ccell (cpc c) = mset_set (fmdom' ?m)"
    and pk: "\<forall>p. p \<in># producers c \<longrightarrow> pok ?m p"
    and pe: "sum_mset (image_mset pending (producers c)) = mset (gaps ?m t r)"
    and ck: "cok ?m t r (C_stored q v)"
    and cs: "mset (received c) + cheld (cpc c) + mset (map snd r) +
             sum_mset (image_mset inflight (producers c)) = vals"
    by (simp_all add: cinv_def)
  from ck obtain a nd where q: "q = Some a" and nd: "node_at ?m a = Some nd"
    by (auto simp: cok_def split: option.splits)
  from pc q have c0: "ccell (cpc c) = {#a#}" by (simp add: ccell_def)
  from owned_apart(3) [OF own, of a] c0 have nc: "a \<notin> set (t # map fst r)" and np: "a \<notin># ?P"
    by simp_all
  from nd have ain: "a \<in> fmdom' ?m" by (rule in_dom_node)
  from nd obtain s1 where s1: "destroy ?s (Some a) = Return () s1"
    "mem s1 = fmupd a Raw ?m" "m_head s1 = m_head ?s" "m_tail s1 = m_tail ?s"
    "free_list s1 = free_list ?s" "fresh s1 = fresh ?s" "limit s1 = limit ?s"
    "trace s1 = trace ?s @ [Destroy a]"
    by (rule destroy_ok)
  let ?c' = "c\<lparr>shared := s1, cpc := C_destroyed (Some a) v, received := received c\<rparr>"
  from s1(1) pc q have run: "consumer_step ?s (cpc c) (received c) =
      Return (C_destroyed (Some a) v, received c) s1"
    by (simp add: consumer_step_def)
  from ai have "alloc_ok ?m (free_list ?s) (fresh ?s) (trace ?s)" by (simp add: alloc_inv_def)
  then have "alloc_ok (fmupd a Raw ?m) (free_list ?s) (fresh ?s) (trace ?s)"
    using ain by (rule alloc_ok_upd)
  then have "alloc_ok (fmupd a Raw ?m) (free_list ?s) (fresh ?s) (trace ?s @ [Destroy a])"
    by (rule alloc_ok_event) simp
  then have ai': "alloc_inv s1" by (simp add: alloc_inv_def s1)
  from ain have dom: "fmdom' (mem s1) = fmdom' ?m" by (auto simp: s1)
  have "cinv vals ?c' t r"
  proof (rule cinvI)
    show "alloc_inv (shared ?c')" using ai' by simp
    show "m_tail (shared ?c') = Some t" using s1(4) tl by simp
    show "wpath (mem (shared ?c')) t r" using wp frame_upd(1) [OF nc np pk] by (simp add: s1(2))
    show "distinct (t # map fst r)" by (rule di)
    show "m_head (shared ?c') = Some (last (t # map fst r))" using s1(3) hd by simp
    show "mset (t # map fst r) + sum_mset (image_mset pcell (producers ?c')) + ccell (cpc ?c') =
          mset_set (fmdom' (mem (shared ?c')))"
    proof -
      have "ccell (C_destroyed (Some a) v) = {#a#}" by (simp add: ccell_def)
      with own c0 dom show ?thesis by simp
    qed
    show "\<forall>p. p \<in># producers ?c' \<longrightarrow> pok (mem (shared ?c')) p"
      using frame_upd(3) [OF nc np pk] by (simp add: s1(2))
    show "sum_mset (image_mset pending (producers ?c')) = mset (gaps (mem (shared ?c')) t r)"
      using pe frame_upd(2) [OF nc np pk] by (simp add: s1(2))
    show "cok (mem (shared ?c')) t r (cpc ?c')" by (simp add: cok_def s1(2))
    show "mset (received ?c') + cheld (cpc ?c') + mset (map snd r) +
          sum_mset (image_mset inflight (producers ?c')) = vals"
      using cs pc by (simp add: cheld_def)
  qed
  with run show ?thesis by blast
qed

text \<open>The consumer gives the old sentinel back and \<^verbatim>\<open>pull\<close> returns the value.\<close>

lemma consume_destroyed:
  assumes inv: "cinv vals c t r" and pc: "cpc c = C_destroyed q v"
  shows "\<exists>pc' rcv' s'. consumer_step (shared c) (cpc c) (received c) = Return (pc', rcv') s' \<and>
           cinv vals (c\<lparr>shared := s', cpc := pc', received := rcv'\<rparr>) t r"
proof -
  let ?s = "shared c" and ?m = "mem (shared c)"
  let ?P = "sum_mset (image_mset pcell (producers c))"
  from inv pc have ai: "alloc_inv ?s" and tl: "m_tail ?s = Some t" and wp: "wpath ?m t r"
    and di: "distinct (t # map fst r)" and hd: "m_head ?s = Some (last (t # map fst r))"
    and own: "mset (t # map fst r) + ?P + ccell (cpc c) = mset_set (fmdom' ?m)"
    and pk: "\<forall>p. p \<in># producers c \<longrightarrow> pok ?m p"
    and pe: "sum_mset (image_mset pending (producers c)) = mset (gaps ?m t r)"
    and ck: "cok ?m t r (C_destroyed q v)"
    and cs: "mset (received c) + cheld (cpc c) + mset (map snd r) +
             sum_mset (image_mset inflight (producers c)) = vals"
    by (simp_all add: cinv_def)
  from ck obtain a where q: "q = Some a" and raw: "fmlookup ?m a = Some Raw"
    by (auto simp: cok_def split: option.splits)
  from pc q have c0: "ccell (cpc c) = {#a#}" by (simp add: ccell_def)
  from owned_apart(3) [OF own, of a] c0 have nc: "a \<notin> set (t # map fst r)" and np: "a \<notin># ?P"
    by simp_all
  from raw have ain: "a \<in> fmdom' ?m" by (rule fmdom'I)
  from raw obtain s1 where s1: "deallocate ?s (Some a) = Return () s1"
    "mem s1 = fmdrop a ?m" "m_head s1 = m_head ?s" "m_tail s1 = m_tail ?s"
    "free_list s1 = a # free_list ?s" "fresh s1 = fresh ?s" "limit s1 = limit ?s"
    "trace s1 = trace ?s @ [Deallocate a]"
    by (rule deallocate_ok)
  let ?c' = "c\<lparr>shared := s1, cpc := C_idle, received := received c @ [v]\<rparr>"
  from s1(1) pc q have run: "consumer_step ?s (cpc c) (received c) =
      Return (C_idle, received c @ [v]) s1"
    by (simp add: consumer_step_def)
  from ai have "alloc_ok ?m (free_list ?s) (fresh ?s) (trace ?s)" by (simp add: alloc_inv_def)
  from alloc_ok_free [OF this ain] have ai': "alloc_inv s1" by (simp add: alloc_inv_def s1)
  from ain have "mset_set (fmdom' ?m) = add_mset a (mset_set (fmdom' ?m - {a}))"
    by (intro mset_set.remove) simp_all
  with own c0 have own': "mset (t # map fst r) + ?P = mset_set (fmdom' ?m - {a})" by simp
  have "cinv vals ?c' t r"
  proof (rule cinvI)
    show "alloc_inv (shared ?c')" using ai' by simp
    show "m_tail (shared ?c') = Some t" using s1(4) tl by simp
    show "wpath (mem (shared ?c')) t r" using wp frame_drop(1) [OF nc np pk] by (simp add: s1(2))
    show "distinct (t # map fst r)" by (rule di)
    show "m_head (shared ?c') = Some (last (t # map fst r))" using s1(3) hd by simp
    show "mset (t # map fst r) + sum_mset (image_mset pcell (producers ?c')) + ccell (cpc ?c') =
          mset_set (fmdom' (mem (shared ?c')))"
      using own' by (simp add: ccell_def s1(2))
    show "\<forall>p. p \<in># producers ?c' \<longrightarrow> pok (mem (shared ?c')) p"
      using frame_drop(3) [OF nc np pk] by (simp add: s1(2))
    show "sum_mset (image_mset pending (producers ?c')) = mset (gaps (mem (shared ?c')) t r)"
      using pe frame_drop(2) [OF nc np pk] by (simp add: s1(2))
    show "cok (mem (shared ?c')) t r (cpc ?c')" by (simp add: cok_def)
    show "mset (received ?c') + cheld (cpc ?c') + mset (map snd r) +
          sum_mset (image_mset inflight (producers ?c')) = vals"
      using cs pc by (simp add: cheld_def)
  qed
  with run show ?thesis by blast
qed

subsection \<open>Every interleaving\<close>

lemma producer_preserves:
  assumes inv: "cinv vals c t r" and ps: "producers c = add_mset p M"
    and en: "producer_step (shared c) p = Some out"
  shows "\<exists>p' s' t' r'. out = Return p' s' \<and>
           cinv vals (c\<lparr>shared := s', producers := add_mset p' M\<rparr>) t' r'"
proof (cases "ppc p")
  case P_idle
  with en obtain v vs where "todo p = v # vs"
    by (cases "todo p") (simp_all add: producer_step_def)
  from produce_idle [OF inv ps P_idle this] en show ?thesis by auto
next
  case (P_allocated q v)
  from produce_allocated [OF inv ps this] en show ?thesis by auto
next
  case (P_constructed q v)
  from produce_constructed [OF inv ps this] en show ?thesis by auto
next
  case (P_exchanged q q' v)
  from produce_exchanged [OF inv ps this] en show ?thesis by auto
next
  case P_failed
  with en show ?thesis by (simp add: producer_step_def)
qed

lemma consumer_preserves:
  assumes inv: "cinv vals c t r"
  shows "\<exists>pc' rcv' s' t' r'.
           consumer_step (shared c) (cpc c) (received c) = Return (pc', rcv') s' \<and>
           cinv vals (c\<lparr>shared := s', cpc := pc', received := rcv'\<rparr>) t' r'"
proof (cases "cpc c")
  case C_idle
  from consume_idle [OF inv this] show ?thesis by blast
next
  case (C_tail q)
  from consume_tail [OF inv this] show ?thesis by blast
next
  case (C_next q q')
  from consume_next [OF inv this] show ?thesis by blast
next
  case (C_moved q q' v)
  from consume_moved [OF inv this] show ?thesis by blast
next
  case (C_stored q v)
  from consume_stored [OF inv this] show ?thesis by blast
next
  case (C_destroyed q v)
  from consume_destroyed [OF inv this] show ?thesis by blast
qed

lemma step_preserves:
  assumes "step c c'" and "\<exists>t r. cinv vals c t r"
  shows "\<exists>t r. cinv vals c' t r"
  using assms
proof (cases rule: step.cases)
  case (produce p M p' s')
  from assms(2) obtain t r where inv: "cinv vals c t r" by blast
  from producer_preserves [OF inv produce(2,3)] produce(1) show ?thesis by auto
next
  case (consume pc' rcv' s')
  from assms(2) obtain t r where inv: "cinv vals c t r" by blast
  from consumer_preserves [OF inv] consume show ?thesis by auto
qed

lemma cinv_not_faulty:
  assumes inv: "cinv vals c t r"
  shows "\<not> faulty c"
proof
  assume "faulty c"
  then consider p where "p \<in># producers c" "producer_step (shared c) p = Some Undefined"
    | "consumer_step (shared c) (cpc c) (received c) = Undefined"
    by (auto simp: faulty_def)
  then show False
  proof cases
    case 1
    from 1(1) obtain M where "producers c = add_mset p M" by (rule mset_add)
    from producer_preserves [OF inv this 1(2)] show False by auto
  next
    case 2
    with consumer_preserves [OF inv] show False by auto
  qed
qed

lemma start_idle:
  assumes "p \<in># producers (start s0 vss)"
  shows "ppc p = P_idle"
  using assms by (auto simp: start_def)

lemma start_inv:
  assumes "mpsc_queue cap dflt = Return () s0"
  shows "cinv (mset (concat vss)) (start s0 vss) 0 []"
proof -
  let ?c = "start s0 vss"
  from mpsc_queue_Return [OF assms] have q: "queue_inv s0 0 []" by simp
  then have s0: "alloc_inv s0" "m_tail s0 = Some 0" "path (mem s0) 0 []" "m_head s0 = Some 0"
    "fmdom' (mem s0) = {0}"
    by (simp_all add: queue_inv_def)
  have sh: "shared ?c = s0" "cpc ?c = C_idle" "received ?c = []" by (simp_all add: start_def)
  have su: "sum_mset (image_mset pcell (producers ?c)) = {#}"
    "sum_mset (image_mset pending (producers ?c)) = {#}"
    "sum_mset (image_mset inflight (producers ?c)) = mset (concat vss)"
    using start_sums [of vss] by (simp_all add: start_def)
  show ?thesis
  proof (rule cinvI)
    show "alloc_inv (shared ?c)" using s0 by (simp add: sh)
    show "m_tail (shared ?c) = Some 0" using s0 by (simp add: sh)
    show "wpath (mem (shared ?c)) 0 []" using s0 by (simp add: sh)
    show "distinct (0 # map fst [])" by simp
    show "m_head (shared ?c) = Some (last (0 # map fst []))" using s0 by (simp add: sh)
    show "mset (0 # map fst []) + sum_mset (image_mset pcell (producers ?c)) + ccell (cpc ?c) =
          mset_set (fmdom' (mem (shared ?c)))"
      using s0 by (simp add: sh su ccell_def)
    show "\<forall>p. p \<in># producers ?c \<longrightarrow> pok (mem (shared ?c)) p"
      using start_idle [of _ s0 vss] by (simp add: pok_def)
    show "sum_mset (image_mset pending (producers ?c)) = mset (gaps (mem (shared ?c)) 0 [])"
      by (simp add: su)
    show "cok (mem (shared ?c)) 0 [] (cpc ?c)" by (simp add: sh cok_def)
    show "mset (received ?c) + cheld (cpc ?c) + mset (map snd []) +
          sum_mset (image_mset inflight (producers ?c)) = mset (concat vss)"
      by (simp add: sh su cheld_def)
  qed
qed

lemma reach_inv:
  assumes "mpsc_queue cap dflt = Return () s0" and "rtranclp step (start s0 vss) c"
  shows "\<exists>t r. cinv (mset (concat vss)) c t r"
  using assms(2)
proof (induction rule: rtranclp_induct)
  case base
  from start_inv [OF assms(1)] show ?case by blast
next
  case (step c c')
  from step_preserves [OF step(2) step(3)] show ?case .
qed

lemma quiescent_queue_inv:
  assumes inv: "cinv vals c t r" and qu: "quiescent c"
  shows "queue_inv (shared c) t r \<and> mset (received c) + mset (map snd r) = vals"
proof -
  from qu have pi: "\<forall>p. p \<in># producers c \<longrightarrow> ppc p = P_idle \<and> todo p = []"
    and ci: "cpc c = C_idle"
    by (simp_all add: quiescent_def)
  from quiet_sums [OF pi] have z: "sum_mset (image_mset pcell (producers c)) = {#}"
    "sum_mset (image_mset pending (producers c)) = {#}"
    "sum_mset (image_mset inflight (producers c)) = {#}"
    by simp_all
  from inv z ci have ai: "alloc_inv (shared c)" and tl: "m_tail (shared c) = Some t"
    and wp: "wpath (mem (shared c)) t r" and di: "distinct (t # map fst r)"
    and hd: "m_head (shared c) = Some (last (t # map fst r))"
    and own: "mset (t # map fst r) = mset_set (fmdom' (mem (shared c)))"
    and ga: "gaps (mem (shared c)) t r = []"
    and cs: "mset (received c) + mset (map snd r) = vals"
    by (simp_all add: cinv_def ccell_def cheld_def)
  from wp ga have "path (mem (shared c)) t r" by (rule wpath_path)
  moreover from own have "set_mset (mset (t # map fst r)) = set_mset (mset_set (fmdom' (mem (shared c))))"
    by simp
  then have "fmdom' (mem (shared c)) = set (t # map fst r)" by simp
  ultimately show ?thesis using ai tl di hd cs by (simp add: queue_inv_def)
qed

lemma run_steps:
  assumes "run sch s ps pc rcv = Some (s', ps', pc', rcv')"
  shows "rtranclp step \<lparr>shared = s, producers = mset ps, cpc = pc, received = rcv\<rparr>
           \<lparr>shared = s', producers = mset ps', cpc = pc', received = rcv'\<rparr>"
  using assms
proof (induction sch s ps pc rcv rule: run.induct)
  case (1 s ps pc rcv)
  then show ?case by simp
next
  case (2 i sch s ps pc rcv)
  let ?c = "\<lparr>shared = s, producers = mset ps, cpc = pc, received = rcv\<rparr>"
  from "2.prems" have i: "i < length ps" by (simp split: if_splits)
  with "2.prems" obtain p1 s1 where p1: "producer_step s (ps ! i) = Some (Return p1 s1)"
    and r: "run sch s1 (ps[i := p1]) pc rcv = Some (s', ps', pc', rcv')"
    by (auto split: option.splits outcome.splits)
  from i have m: "mset ps = add_mset (ps ! i) (mset ps - {#ps ! i#})" by simp
  from i have m': "mset (ps[i := p1]) = add_mset p1 (mset ps - {#ps ! i#})" by (rule mset_update)
  have "step ?c (?c\<lparr>shared := s1, producers := add_mset p1 (mset ps - {#ps ! i#})\<rparr>)"
    by (rule step.produce [where p = "ps ! i"]) (use m p1 in simp_all)
  then have "step ?c \<lparr>shared = s1, producers = mset (ps[i := p1]), cpc = pc, received = rcv\<rparr>"
    by (simp add: m')
  moreover from "2.IH" [OF i p1 refl r]
  have "rtranclp step \<lparr>shared = s1, producers = mset (ps[i := p1]), cpc = pc, received = rcv\<rparr>
      \<lparr>shared = s', producers = mset ps', cpc = pc', received = rcv'\<rparr>" .
  ultimately show ?case by (rule converse_rtranclp_into_rtranclp)
next
  case (3 sch s ps pc rcv)
  let ?c = "\<lparr>shared = s, producers = mset ps, cpc = pc, received = rcv\<rparr>"
  from "3.prems" obtain pc1 rcv1 s1 where c1: "consumer_step s pc rcv = Return (pc1, rcv1) s1"
    and r: "run sch s1 ps pc1 rcv1 = Some (s', ps', pc', rcv')"
    by (auto split: outcome.splits)
  have "step ?c (?c\<lparr>shared := s1, cpc := pc1, received := rcv1\<rparr>)"
    by (rule step.consume) (use c1 in simp)
  then have "step ?c \<lparr>shared = s1, producers = mset ps, cpc = pc1, received = rcv1\<rparr>" by simp
  moreover from "3.IH" [OF c1 refl r]
  have "rtranclp step \<lparr>shared = s1, producers = mset ps, cpc = pc1, received = rcv1\<rparr>
      \<lparr>shared = s', producers = mset ps', cpc = pc', received = rcv'\<rparr>" .
  ultimately show ?case by (rule converse_rtranclp_into_rtranclp)
qed

subsection \<open>A thread running alone makes the call\<close>

text \<open>The four accesses of a producer, with no other thread in between, are \<^verbatim>\<open>push_impl\<close>;
  the accesses of the consumer are \<^verbatim>\<open>pull\<close>.\<close>

lemma producer_alone:
  assumes "push_impl s v = Return () s'"
  shows "run [Producer 0, Producer 0, Producer 0, Producer 0] s
           [\<lparr>todo = v # vs, ppc = P_idle\<rparr>] pc rcv =
         Some (s', [\<lparr>todo = vs, ppc = P_idle\<rparr>], pc, rcv)"
proof -
  from assms obtain q s1 where a: "allocate s = Return q s1"
    by (cases "allocate s") (simp_all add: push_impl_def)
  let ?nd = "\<lparr>data = v, next_ptr = None\<rparr>"
  from assms a obtain s2 where c: "construct s1 q ?nd = Return () s2"
    by (cases "construct s1 q ?nd") (simp_all add: push_impl_def)
  from assms a c have st: "store_next (s2\<lparr>m_head := q\<rparr>) (m_head s2) q = Return () s'"
    by (simp add: push_impl_def exchange_head_def)
  from a c st show ?thesis by (simp add: producer_step_def exchange_head_def)
qed

lemma and_then_Return:
  "and_then x f = Return r s' \<longleftrightarrow> (\<exists>q s1. x = Return q s1 \<and> f q s1 = Return r s')"
  by (cases x) simp_all

lemma consumer_alone_empty:
  assumes "pull s = Return None s'"
  shows "run [Consumer, Consumer] s ps C_idle rcv = Some (s', ps, C_idle, rcv)"
  using assms
  by (auto simp: pull_def consumer_step_def Let_def and_then_Return split: option.splits)

lemma consumer_alone_value:
  assumes "pull s = Return (Some v) s'"
  shows "run [Consumer, Consumer, Consumer, Consumer, Consumer, Consumer] s ps C_idle rcv =
         Some (s', ps, C_idle, rcv @ [v])"
proof -
  from assms obtain tn where tn: "load_node s (m_tail s) = Some tn"
    by (cases "load_node s (m_tail s)") (simp_all add: pull_def)
  from assms tn obtain nx where nx: "next_ptr tn = Some nx"
    by (cases "next_ptr tn") (simp_all add: pull_def)
  from assms tn nx obtain nn where nn: "load_node s (Some nx) = Some nn"
    by (cases "load_node s (Some nx)") (simp_all add: pull_def del: load_node_Some)
  let ?s1 = "s\<lparr>m_tail := Some nx\<rparr>"
  from assms tn nx nn obtain s2 where d: "destroy ?s1 (m_tail s) = Return () s2"
    by (cases "destroy ?s1 (m_tail s)") (simp_all add: pull_def Let_def del: load_node_Some)
  from assms tn nx nn d have f: "deallocate s2 (m_tail s) = Return () s'" "v = data nn"
    by (cases "deallocate s2 (m_tail s)"; simp add: pull_def Let_def del: load_node_Some)+
  from tn nx nn d f show ?thesis
    by (simp add: consumer_step_def del: load_node_Some)
qed

lemma schedule_gap:
  "run (take 5 schedule) q_fresh two_producers C_idle [] =
   Some (q_fresh\<lparr>m_head := Some (Suc 0), fresh := Suc (Suc 0),
           mem := fmupd (Suc 0) (Obj \<lparr>data = 1, next_ptr = None\<rparr>) (mem q_fresh),
           trace := trace q_fresh @ [Allocate (Suc 0), Construct (Suc 0)]\<rparr>,
         [\<lparr>todo = [], ppc = P_exchanged (Some 0) (Some (Suc 0)) 1\<rparr>,
          \<lparr>todo = [2], ppc = P_idle\<rparr>],
         C_idle, [])"
  by (simp add: schedule_def two_producers_def q_fresh_def producer_step_def
      consumer_step_def op_defs)

lemma schedule_run:
  "run schedule q_fresh two_producers C_idle [] =
   Some (q_after, [\<lparr>todo = [], ppc = P_idle\<rparr>, \<lparr>todo = [], ppc = P_idle\<rparr>], C_idle, [1])"
  by (simp add: schedule_def two_producers_def q_fresh_def q_after_def producer_step_def
      consumer_step_def op_defs)

section \<open>Claims\<close>

text \<open>
  C1. Single-producer order preservation: when a producer pushes the values \<open>vs\<close> in order
  into a drained queue and no call overlaps another, the pushes return (the arena has room
  for \<open>length vs\<close> nodes), the next \<open>length vs\<close> calls of \<^verbatim>\<open>pull\<close> return exactly
  those values in the same order, and the call after them returns empty.
\<close>

theorem single_producer_order:
  assumes "reachable s" and "drained s" and "length vs \<le> room s"
  shows "\<exists>s1 s2. pushes s vs = Return () s1 \<and>
           pulls (length vs) s1 = Return (map Some vs) s2 \<and> pull s2 = Return None s2"
proof -
  from reachable_inv [OF assms(1)] obtain t r where "queue_inv s t r" by blast
  with assms(2) have inv: "queue_inv s t []" by (simp add: drained_iff)
  from pushes_ok [OF inv assms(3)] obtain as s1 where s1: "pushes s vs = Return () s1"
    "length as = length vs" "queue_inv s1 t (zip as vs)"
    by auto
  from pulls_ok [OF s1(3)] obtain s2 where s2:
    "pulls (length (zip as vs)) s1 = Return (map (\<lambda>x. Some (snd x)) (zip as vs)) s2"
    "queue_inv s2 (last (t # map fst (zip as vs))) []"
    by blast
  from s1(2) have "map (\<lambda>x. Some (snd x)) (zip as vs) = map Some vs"
    by (induction as vs rule: list_induct2) simp_all
  with s2(1) s1(2) have "pulls (length vs) s1 = Return (map Some vs) s2" by simp
  moreover from s2(2) have "pull s2 = Return None s2" by (rule pull_empty)
  ultimately show ?thesis using s1(1) by blast
qed

theorem single_producer_order_witness:
  "drained q_fresh \<and> length [10, 20, 30::int] \<le> room q_fresh \<and>
   (\<exists>s1 s2. pushes q_fresh [10, 20, 30] = Return () s1 \<and>
      pulls 3 s1 = Return [Some 10, Some 20, Some 30] s2 \<and> pull s2 = Return None s2)"
proof -
  have d: "drained q_fresh"
    by (simp add: drained_def q_fresh_def del: load_node_Some add: load_node_def)
  have c: "length [10, 20, 30::int] \<le> room q_fresh" by (simp add: room_def q_fresh_def)
  from single_producer_order [OF q_fresh_reachable d c] obtain s1 s2 where
    "pushes q_fresh [10, 20, 30] = Return () s1"
    "pulls (length [10, 20, 30::int]) s1 = Return (map Some [10, 20, 30]) s2"
    "pull s2 = Return None s2"
    by blast
  then have "pushes q_fresh [10, 20, 30] = Return () s1 \<and>
     pulls 3 s1 = Return [Some 10, Some 20, Some 30] s2 \<and> pull s2 = Return None s2"
    by (simp del: pushes.simps pulls.simps add: numeral_3_eq_3)
  with d c show ?thesis by blast
qed

text \<open>
  C2. Conservation under concurrency: however the accesses of the producers and of the
  consumer interleave, no access has undefined behaviour; and once every producer has
  pushed all its values and the consumer's current \<^verbatim>\<open>pull\<close> has returned, the final drain
  returns, and the values the consumer received before together with the drained ones are,
  as a multiset, exactly the values of all producers: none is lost, none comes twice.
\<close>

theorem conservation_under_concurrency:
  assumes "mpsc_queue cap dflt = Return () s0" and "rtranclp step (start s0 vss) c"
  shows "\<not> faulty c \<and>
         (quiescent c \<longrightarrow>
            (\<exists>xs s'. drain (shared c) = Return xs s' \<and>
               mset (received c @ xs) = mset (concat vss) \<and>
               (distinct (concat vss) \<longrightarrow> distinct (received c @ xs))))"
proof -
  from reach_inv [OF assms] obtain t r where inv: "cinv (mset (concat vss)) c t r" by blast
  then have nf: "\<not> faulty c" by (rule cinv_not_faulty)
  have "\<exists>xs s'. drain (shared c) = Return xs s' \<and> mset (received c @ xs) = mset (concat vss) \<and>
      (distinct (concat vss) \<longrightarrow> distinct (received c @ xs))" if "quiescent c"
  proof -
    from quiescent_queue_inv [OF inv that] have q: "queue_inv (shared c) t r"
      and v: "mset (received c) + mset (map snd r) = mset (concat vss)"
      by simp_all
    from drain_ok [OF q] obtain s' where d: "drain (shared c) = Return (map snd r) s'" by blast
    from v have m: "mset (received c @ map snd r) = mset (concat vss)" by simp
    then have "distinct (concat vss) \<longrightarrow> distinct (received c @ map snd r)"
      by (metis mset_eq_imp_distinct_iff)
    with d m show ?thesis by blast
  qed
  with nf show ?thesis by blast
qed

theorem conservation_under_concurrency_witness:
  "mpsc_queue 4 0 = Return () q_fresh \<and>
   rtranclp step (start q_fresh [[1], [2]])
     \<lparr>shared = q_after,
      producers = mset [\<lparr>todo = [], ppc = P_idle\<rparr>, \<lparr>todo = [], ppc = P_idle\<rparr>],
      cpc = C_idle, received = [1]\<rparr> \<and>
   quiescent \<lparr>shared = q_after,
      producers = mset [\<lparr>todo = [], ppc = P_idle\<rparr>, \<lparr>todo = [], ppc = P_idle\<rparr>],
      cpc = C_idle, received = [1]\<rparr> \<and>
   \<not> faulty \<lparr>shared = q_after,
      producers = mset [\<lparr>todo = [], ppc = P_idle\<rparr>, \<lparr>todo = [], ppc = P_idle\<rparr>],
      cpc = C_idle, received = [1]\<rparr> \<and>
   (\<exists>s'. drain q_after = Return [2] s')"
proof -
  let ?c = "\<lparr>shared = q_after,
      producers = mset [\<lparr>todo = [], ppc = P_idle\<rparr>, \<lparr>todo = [], ppc = P_idle :: int producer_pc\<rparr>],
      cpc = C_idle, received = [1]\<rparr>"
  have s: "start q_fresh [[1], [2]] =
      \<lparr>shared = q_fresh, producers = mset two_producers, cpc = C_idle, received = []\<rparr>"
    by (simp add: start_def two_producers_def)
  from run_steps [OF schedule_run] have st: "rtranclp step (start q_fresh [[1], [2]]) ?c"
    by (simp add: s)
  have qu: "quiescent ?c" by (auto simp: quiescent_def)
  from conservation_under_concurrency [OF q_fresh_run st] qu obtain xs s' where
    nf: "\<not> faulty ?c" and d: "drain q_after = Return xs s'"
    and m: "mset ([1] @ xs) = mset (concat [[1], [2::int]])"
    by auto
  from m have "xs = [2]" by simp
  with q_fresh_run st qu nf d show ?thesis by blast
qed

text \<open>
  C3. Empty on construction: the constructor returns a queue (the arena has room for the
  dummy node), and the first call of \<^verbatim>\<open>pull\<close> on it returns empty.
\<close>

theorem pull_fresh_empty:
  assumes "0 < cap"
  shows "\<exists>s. mpsc_queue cap dflt = Return () s \<and> pull s = Return None s"
proof -
  from mpsc_queue_ok [OF assms, of dflt] obtain s where
    "mpsc_queue cap dflt = Return () s" "queue_inv s 0 []"
    by blast
  moreover from this(2) have "pull s = Return None s" by (rule pull_empty)
  ultimately show ?thesis by blast
qed

theorem pull_fresh_empty_witness:
  "0 < (4::nat) \<and> (\<exists>s. mpsc_queue 4 (0::int) = Return () s \<and> pull s = Return None s)"
  using pull_fresh_empty [of 4 "0::int"] by simp

text \<open>
  C4, as amended. In every state the queue can be brought into, \<^verbatim>\<open>clear\<close> returns and leaves
  the queue as a freshly constructed one is: the next \<^verbatim>\<open>pull\<close> returns empty, and head and
  tail reference the one node that is left, whose next pointer is null. The nodes it destroys
  and deallocates are the old sentinel and every node of the chain but the last, each
  destroyed and then deallocated, in chain order. The last node of the chain is neither
  destroyed nor deallocated: it stays, with its data, as the new sentinel.
\<close>

theorem clear_frees_passed_nodes:
  assumes "reachable s"
  shows "\<exists>t r s'. m_tail s = Some t \<and> path (mem s) t r \<and> clear s = Return () s' \<and>
           pull s' = Return None s' \<and> drained s' \<and>
           m_tail s' = Some (last (t # map fst r)) \<and> m_head s' = Some (last (t # map fst r)) \<and>
           trace s' = trace s @ retired (butlast (t # map fst r)) \<and>
           fmdom' (mem s') = {last (t # map fst r)} \<and>
           load_node s' (m_tail s') = load_node s (m_head s)"
proof -
  from reachable_inv [OF assms] obtain t r where inv: "queue_inv s t r" by blast
  let ?e = "last (t # map fst r)"
  from clear_ok [OF inv] obtain s' where s': "clear s = Return () s'" "queue_inv s' ?e []"
    "trace s' = trace s @ retired (butlast (t # map fst r))"
    "node_at (mem s') ?e = node_at (mem s) ?e"
    by blast
  from s'(2) have "pull s' = Return None s'" by (rule pull_empty)
  moreover from s'(2) have "drained s'" by (simp add: drained_iff)
  moreover from s'(2) have "m_tail s' = Some ?e" "m_head s' = Some ?e" "fmdom' (mem s') = {?e}"
    by (simp_all add: queue_inv_def)
  moreover from inv have "m_tail s = Some t" "path (mem s) t r" "m_head s = Some ?e"
    by (simp_all add: queue_inv_def)
  moreover from this(3) s'(4) \<open>m_tail s' = Some ?e\<close>
  have "load_node s' (m_tail s') = load_node s (m_head s)" by simp
  ultimately show ?thesis using s'(1,3) by blast
qed

text \<open>
  The claim as first stated fails: after the constructor, one push and \<^verbatim>\<open>clear\<close>, the node
  at address 1, whose data (7) was skipped, is still constructed and still allocated.
\<close>

theorem clear_keeps_last_node:
  "(case and_then (mpsc_queue 4 (0::int)) (\<lambda>_ s0. and_then (push s0 7) (\<lambda>_ s1. clear s1)) of
      Return _ s2 \<Rightarrow>
        load_node s2 (Some (Suc 0)) = Some \<lparr>data = 7, next_ptr = None\<rparr> \<and>
        Destroy (Suc 0) \<notin> set (trace s2) \<and> Deallocate (Suc 0) \<notin> set (trace s2) \<and>
        pull s2 = Return None s2
    | _ \<Rightarrow> False)"
  by (simp add: op_defs clear_loop.simps del: load_node_Some)

theorem clear_frees_passed_nodes_witness:
  "\<exists>s2. clear q_two = Return () s2 \<and> pull s2 = Return None s2 \<and> drained s2 \<and>
     m_tail s2 = Some (Suc (Suc 0)) \<and> m_head s2 = Some (Suc (Suc 0)) \<and>
     trace s2 = trace q_two @ [Destroy 0, Deallocate 0, Destroy (Suc 0), Deallocate (Suc 0)] \<and>
     fmdom' (mem s2) = {Suc (Suc 0)} \<and>
     load_node s2 (Some (Suc (Suc 0))) = Some \<lparr>data = 8, next_ptr = None\<rparr>"
proof -
  from clear_frees_passed_nodes [OF q_two_reachable] obtain t r s2 where s2:
    "m_tail q_two = Some t" "path (mem q_two) t r" "clear q_two = Return () s2"
    "pull s2 = Return None s2" "m_tail s2 = Some (last (t # map fst r))"
    "m_head s2 = Some (last (t # map fst r))"
    "trace s2 = trace q_two @ retired (butlast (t # map fst r))"
    "fmdom' (mem s2) = {last (t # map fst r)}"
    "load_node s2 (m_tail s2) = load_node q_two (m_head q_two)" "drained s2"
    by blast
  from s2(1) have t: "t = 0" by (simp add: q_two_def)
  from s2(2) q_two_path have r: "r = [(Suc 0, 7), (Suc (Suc 0), 8)]"
    unfolding t by (rule path_unique)
  have h: "load_node q_two (m_head q_two) = Some \<lparr>data = 8, next_ptr = None\<rparr>"
    by (simp add: q_two_def node_at_def)
  from s2(5-9) h have "m_tail s2 = Some (Suc (Suc 0))" "m_head s2 = Some (Suc (Suc 0))"
    "trace s2 = trace q_two @ [Destroy 0, Deallocate 0, Destroy (Suc 0), Deallocate (Suc 0)]"
    "fmdom' (mem s2) = {Suc (Suc 0)}"
    "load_node s2 (Some (Suc (Suc 0))) = Some \<lparr>data = 8, next_ptr = None\<rparr>"
    unfolding t r by (simp_all add: retired_def)
  with s2(3,4,10) show ?thesis by blast
qed

text \<open>
  C5. No leak, no double free: from any state the queue can be brought into by pushes (and
  other calls), a full drain followed by the destructor returns, and in the allocator's log
  the deallocate calls are as many as the allocate calls (the dummy node of the constructor
  and the last node freed by the destructor included), every deallocate call gives back an
  address that is handed out at that moment (none is given back twice), and no storage is
  left.
\<close>

theorem no_leak_no_double_free:
  assumes "reachable s"
  shows "\<exists>xs s1 s2. drain s = Return xs s1 \<and> destructor s1 = Return () s2 \<and>
           deallocations (trace s2) = allocations (trace s2) \<and>
           replay (trace s2) {} = Some {} \<and> mem s2 = fmempty"
proof -
  from reachable_inv [OF assms] obtain t r where inv: "queue_inv s t r" by blast
  from drain_ok [OF inv] obtain s1 where s1: "drain s = Return (map snd r) s1"
    "queue_inv s1 (last (t # map fst r)) []"
    by blast
  from destructor_ok [OF s1(2)] obtain s2 where s2: "destructor s1 = Return () s2"
    "mem s2 = fmempty" "alloc_inv s2"
    by blast
  from s2(2,3) have rp: "replay (trace s2) {} = Some {}"
    by (simp add: alloc_inv_def alloc_ok_def)
  from replay_counts [OF _ rp] have "deallocations (trace s2) = allocations (trace s2)" by simp
  with s1(1) s2(1,2) rp show ?thesis by blast
qed

theorem no_leak_no_double_free_witness:
  "\<exists>s1 s2. drain q_two = Return [7, 8] s1 \<and> destructor s1 = Return () s2 \<and>
     deallocations (trace s2) = 3 \<and> allocations (trace s2) = 3 \<and>
     replay (trace s2) {} = Some {} \<and> mem s2 = fmempty"
proof -
  from no_leak_no_double_free [OF q_two_reachable] obtain xs s1 s2 where s2:
    "drain q_two = Return xs s1" "destructor s1 = Return () s2"
    "deallocations (trace s2) = allocations (trace s2)"
    "replay (trace s2) {} = Some {}" "mem s2 = fmempty"
    by blast
  have "drain q_two = Return [7, 8] (q_two\<lparr>m_tail := Some (Suc (Suc 0)),
      free_list := [Suc 0, 0],
      mem := fmdrop (Suc 0) (fmupd (Suc 0) Raw (fmdrop 0 (fmupd 0 Raw (mem q_two)))),
      trace := trace q_two @ [Destroy 0, Deallocate 0, Destroy (Suc 0), Deallocate (Suc 0)]\<rparr>)"
    by (simp add: op_defs drain.simps q_two_def)
  with s2(1) have xs: "xs = [7, 8]"
    and s1: "s1 = q_two\<lparr>m_tail := Some (Suc (Suc 0)), free_list := [Suc 0, 0],
      mem := fmdrop (Suc 0) (fmupd (Suc 0) Raw (fmdrop 0 (fmupd 0 Raw (mem q_two)))),
      trace := trace q_two @ [Destroy 0, Deallocate 0, Destroy (Suc 0), Deallocate (Suc 0)]\<rparr>"
    by simp_all
  from s2(2) have "allocations (trace s2) = 3"
    unfolding s1 by (auto simp: op_defs clear_loop.simps allocations_def q_two_def)
  with s2 xs show ?thesis by auto
qed

text \<open>
  C6. Destruction, when no push is in progress: the destructor first does what \<^verbatim>\<open>clear\<close>
  does, which leaves exactly one node, referenced by head and tail alike; it then destroys
  and deallocates that one node, the final sentinel, and no storage is left.
\<close>

theorem destructor_frees_final_sentinel:
  assumes "reachable s"
  shows "\<exists>s1 s2 a. clear s = Return () s1 \<and> destructor s = Return () s2 \<and>
           m_head s1 = Some a \<and> m_tail s1 = Some a \<and> fmdom' (mem s1) = {a} \<and>
           trace s2 = trace s1 @ [Destroy a, Deallocate a] \<and> mem s2 = fmempty"
proof -
  from reachable_inv [OF assms] obtain t r where inv: "queue_inv s t r" by blast
  let ?e = "last (t # map fst r)"
  from destructor_ok [OF inv] obtain s1 s2 where s: "clear s = Return () s1"
    "destructor s = Return () s2" "queue_inv s1 ?e []" "mem s2 = fmempty"
    "trace s2 = trace s1 @ [Destroy ?e, Deallocate ?e]"
    by blast
  from s(3) have "m_head s1 = Some ?e" "m_tail s1 = Some ?e" "fmdom' (mem s1) = {?e}"
    by (simp_all add: queue_inv_def)
  with s(1,2,4,5) show ?thesis by blast
qed

theorem destructor_frees_final_sentinel_witness:
  "\<exists>s1 s2. clear q_two = Return () s1 \<and> destructor q_two = Return () s2 \<and>
     m_head s1 = Some (Suc (Suc 0)) \<and> m_tail s1 = Some (Suc (Suc 0)) \<and>
     fmdom' (mem s1) = {Suc (Suc 0)} \<and>
     trace s2 = trace s1 @ [Destroy (Suc (Suc 0)), Deallocate (Suc (Suc 0))] \<and>
     mem s2 = fmempty"
proof -
  from destructor_frees_final_sentinel [OF q_two_reachable] obtain s1 s2 a where s:
    "clear q_two = Return () s1" "destructor q_two = Return () s2"
    "m_head s1 = Some a" "m_tail s1 = Some a" "fmdom' (mem s1) = {a}"
    "trace s2 = trace s1 @ [Destroy a, Deallocate a]" "mem s2 = fmempty"
    by blast
  have "clear q_two = Return () (q_two\<lparr>m_tail := Some (Suc (Suc 0)),
      free_list := [Suc 0, 0],
      mem := fmdrop (Suc 0) (fmupd (Suc 0) Raw (fmdrop 0 (fmupd 0 Raw (mem q_two)))),
      trace := trace q_two @ [Destroy 0, Deallocate 0, Destroy (Suc 0), Deallocate (Suc 0)]\<rparr>)"
    by (simp add: op_defs clear_loop.simps q_two_def)
  with s(1,4) have "a = Suc (Suc 0)" by auto
  with s show ?thesis by blast
qed

text \<open>
  C7, where the code departs from the claim. The by-copy overload of \<^verbatim>\<open>push\<close> hands \<^verbatim>\<open>push_impl\<close> the
  prvalue \<^verbatim>\<open>T(value)\<close>, a copy of its argument, which binds to the parameter
  \<^verbatim>\<open>T &&value\<close>. The overload for rvalues hands it \<^verbatim>\<open>value\<close>, the name of its own
  parameter and so an lvalue, to which \<^verbatim>\<open>T &&value\<close> cannot bind: the overload is ill-formed
  as soon as it is instantiated, and no value is enqueued by move.
\<close>

theorem push_rvalue_ill_formed:
  "push_rvalue s v = None \<and> push_copy s v = Some (push s v)"
  by (simp add: push_rvalue_def push_copy_def push_def rvalue_overload_argument_def
      copy_overload_argument_def)

text \<open>
  C8. Idempotent emptiness: on a drained queue every further call of \<^verbatim>\<open>pull\<close> returns
  empty and leaves the whole state as it was: tail and head are unchanged, and nothing is
  added to the allocator's log.
\<close>

theorem pull_drained_idempotent:
  assumes "drained s"
  shows "pull s = Return None s \<and> pulls n s = Return (replicate n None) s"
proof -
  from assms have "pull s = Return None s" by (rule drained_pull)
  moreover from this have "pulls n s = Return (replicate n None) s" by (rule pulls_empty)
  ultimately show ?thesis by blast
qed

theorem pull_drained_idempotent_witness:
  "drained q_fresh \<and> pull q_fresh = Return None q_fresh \<and>
   pulls 3 q_fresh = Return [None, None, None] q_fresh"
proof -
  have d: "drained q_fresh"
    by (simp add: drained_def q_fresh_def del: load_node_Some add: load_node_def)
  from pull_drained_idempotent [OF d, of 3] d show ?thesis
    by (simp add: numeral_3_eq_3 del: pulls.simps)
qed

text \<open>
  C9. Allocation failure in \<^verbatim>\<open>push\<close>: when the allocation of the node fails, \<^verbatim>\<open>push\<close> throws
  at once what \<^verbatim>\<open>allocate\<close> threw, after that single call to the allocator; head, tail,
  the memory and the allocator's free list are as before, no node is linked, and draining or
  pulling afterwards gives the same values as it would have given before.
\<close>

theorem push_bad_alloc_atomic:
  assumes "reachable s" and "allocate s = Bad_alloc sf"
  shows "push s v = Bad_alloc sf \<and> trace sf = trace s @ [Alloc_failed] \<and>
         m_head sf = m_head s \<and> m_tail sf = m_tail s \<and> mem sf = mem s \<and>
         free_list sf = free_list s \<and> fresh sf = fresh s \<and> limit sf = limit s \<and>
         (\<exists>xs s1 s2. drain s = Return xs s1 \<and> drain sf = Return xs s2) \<and>
         (\<exists>x s1 s2. pull s = Return x s1 \<and> pull sf = Return x s2)"
proof -
  from assms(2) have sf: "sf = log Alloc_failed s"
    by (simp add: allocate_def split: list.splits if_splits)
  from assms(2) have p: "push s v = Bad_alloc sf" by (simp add: push_def push_impl_def)
  from reachable_inv [OF assms(1)] obtain t r where inv: "queue_inv s t r" by blast
  then have inv': "queue_inv sf t r" unfolding sf by (rule queue_inv_log_failed)
  from drain_ok [OF inv] drain_ok [OF inv']
  have d: "\<exists>xs s1 s2. drain s = Return xs s1 \<and> drain sf = Return xs s2" by blast
  have "\<exists>x s1 s2. pull s = Return x s1 \<and> pull sf = Return x s2"
  proof (cases r)
    case Nil
    with inv inv' pull_empty [of s t] pull_empty [of sf t] show ?thesis by auto
  next
    case (Cons y r')
    obtain b w where y: "y = (b, w)" by (cases y)
    from inv inv' Cons y have "queue_inv s t ((b, w) # r')" "queue_inv sf t ((b, w) # r')"
      by simp_all
    from pull_ok [OF this(1)] pull_ok [OF this(2)] show ?thesis by blast
  qed
  with p d show ?thesis by (simp add: sf)
qed

text \<open>After one more push into \<open>q_two\<close> the arena of four cells is exhausted, and the
  push after it fails.\<close>

theorem push_bad_alloc_atomic_witness:
  "\<exists>s sf. pushes q_two [9] = Return () s \<and> allocate s = Bad_alloc sf \<and>
     push s 10 = Bad_alloc sf \<and> trace sf = trace s @ [Alloc_failed] \<and>
     m_head sf = m_head s \<and> m_tail sf = m_tail s \<and> mem sf = mem s \<and>
     (\<exists>s1 s2. drain s = Return [7, 8, 9] s1 \<and> drain sf = Return [7, 8, 9] s2)"
proof -
  let ?s = "q_two\<lparr>m_head := Some (Suc (Suc (Suc 0))), fresh := Suc (Suc (Suc (Suc 0))),
      mem := fmupd (Suc (Suc 0)) (Obj \<lparr>data = 8, next_ptr = Some (Suc (Suc (Suc 0)))\<rparr>)
               (fmupd (Suc (Suc (Suc 0))) (Obj \<lparr>data = 9, next_ptr = None\<rparr>) (mem q_two)),
      trace := trace q_two @ [Allocate (Suc (Suc (Suc 0))), Construct (Suc (Suc (Suc 0)))]\<rparr>"
  have e: "pushes q_two [9] = Return () ?s"
    by (simp add: op_defs q_two_def)
  with q_two_reachable have r: "reachable ?s" by (rule reachable_pushes)
  have a: "allocate ?s = Bad_alloc (log Alloc_failed ?s)"
    by (simp add: allocate_def q_two_def)
  from push_bad_alloc_atomic [OF r a, of 10] obtain xs s1 s2 where f:
    "push ?s 10 = Bad_alloc (log Alloc_failed ?s)"
    "drain ?s = Return xs s1" "drain (log Alloc_failed ?s) = Return xs s2"
    by blast
  have "\<exists>s1. drain ?s = Return [7, 8, 9] s1"
    by (simp add: op_defs drain.simps q_two_def)
  with f(2) have "xs = [7, 8, 9]" by auto
  with e a f show ?thesis by (intro exI [of _ ?s] exI [of _ "log Alloc_failed ?s"]) auto
qed

text \<open>
  C10. When \<^verbatim>\<open>clear\<close> returns (no push in progress), the tail cursor and the head cursor
  reference the same node. It is the last node of the chain, the one the head cursor
  referenced before, and its next pointer is null. The destructor's \<^verbatim>\<open>destroy\<close> of the head
  and \<^verbatim>\<open>deallocate\<close> of the tail therefore act on that one node.
\<close>

theorem clear_cursors_meet:
  assumes "reachable s"
  shows "\<exists>s1 a nd t r s2 s3. clear s = Return () s1 \<and> m_tail s1 = Some a \<and> m_head s1 = Some a \<and>
           m_tail s = Some t \<and> path (mem s) t r \<and> a = last (t # map fst r) \<and>
           m_head s = Some a \<and> load_node s1 (Some a) = Some nd \<and> next_ptr nd = None \<and>
           destroy s1 (m_head s1) = Return () s2 \<and> deallocate s2 (m_tail s2) = Return () s3 \<and>
           m_tail s2 = Some a \<and> destructor s = Return () s3"
proof -
  from reachable_inv [OF assms] obtain t r where inv: "queue_inv s t r" by blast
  let ?e = "last (t # map fst r)"
  from destructor_ok [OF inv] obtain s1 s2 s3 where s: "clear s = Return () s1"
    "destructor s = Return () s3" "queue_inv s1 ?e []"
    "destroy s1 (m_head s1) = Return () s2" "deallocate s2 (m_tail s2) = Return () s3"
    "m_tail s2 = m_tail s1" "m_head s = m_head s1"
    by blast
  from s(3) have c: "m_head s1 = Some ?e" "m_tail s1 = Some ?e"
    by (simp_all add: queue_inv_def)
  from s(3) obtain nd where nd: "load_node s1 (Some ?e) = Some nd" "next_ptr nd = None"
    by (auto simp: queue_inv_def split: option.splits)
  from inv have "m_tail s = Some t" "path (mem s) t r" by (simp_all add: queue_inv_def)
  moreover from s(7) c have "m_head s = Some ?e" by simp
  moreover from s(6) c have "m_tail s2 = Some ?e" by simp
  ultimately show ?thesis using s(1,2,4,5) c nd by blast
qed

theorem clear_cursors_meet_witness:
  "\<exists>s1 s2 s3. clear q_two = Return () s1 \<and> m_tail s1 = Some (Suc (Suc 0)) \<and>
     m_head s1 = Some (Suc (Suc 0)) \<and> m_head q_two = Some (Suc (Suc 0)) \<and>
     load_node s1 (Some (Suc (Suc 0))) = Some \<lparr>data = 8, next_ptr = None\<rparr> \<and>
     destroy s1 (m_head s1) = Return () s2 \<and> deallocate s2 (m_tail s2) = Return () s3 \<and>
     m_tail s2 = Some (Suc (Suc 0)) \<and> destructor q_two = Return () s3"
proof -
  from clear_cursors_meet [OF q_two_reachable] obtain s1 a nd t r s2 s3 where s:
    "clear q_two = Return () s1" "m_tail s1 = Some a" "m_head s1 = Some a"
    "m_head q_two = Some a" "load_node s1 (Some a) = Some nd" "next_ptr nd = None"
    "destroy s1 (m_head s1) = Return () s2" "deallocate s2 (m_tail s2) = Return () s3"
    "m_tail s2 = Some a" "destructor q_two = Return () s3"
    by blast
  from s(4) have a: "a = Suc (Suc 0)" by (simp add: q_two_def)
  have "clear q_two = Return () (q_two\<lparr>m_tail := Some (Suc (Suc 0)),
      free_list := [Suc 0, 0],
      mem := fmdrop (Suc 0) (fmupd (Suc 0) Raw (fmdrop 0 (fmupd 0 Raw (mem q_two)))),
      trace := trace q_two @ [Destroy 0, Deallocate 0, Destroy (Suc 0), Deallocate (Suc 0)]\<rparr>)"
    by (simp add: op_defs clear_loop.simps q_two_def)
  with s(1) have "load_node s1 (Some (Suc (Suc 0))) = Some \<lparr>data = 8, next_ptr = None\<rparr>"
    by (auto simp: q_two_def node_at_def)
  with s show ?thesis unfolding a by blast
qed

end
